theory Spec2Isabelle
  imports Complex_Main "HOL-Library.AList"
begin

section \<open>Identifiers, exceptions, results\<close>

text \<open>
  Message ids are Python strings and engine ids are byte strings; both are opaque to the
  scheduler. Job objects are mutable and shared between \<open>queue\<close>, \<open>queue_map\<close>,
  \<open>pending\<close> and timer closures, so the model keeps them in a store and passes
  references around.
\<close>

type_synonym msg_id = string
type_synonym engine_id = string
type_synonym job_ref = nat
type_synonym frames = "string list"

datatype exn = KeyError | ValueError | IndexError | TypeError

text \<open>
  A method that can raise returns \<open>Inl e\<close> together with the state reached when the
  exception left it. The methods that call each other recursively take fuel; \<open>None\<close>
  means that the fuel ran out.
\<close>

type_synonym ('a, 's) res = "((exn + 'a) \<times> 's) option"

section \<open>Dependency\<close>

text \<open>
  A Python set is represented by the duplicate-free list of its elements. Python does not
  specify the order in which a set is iterated; the model iterates in list order.
\<close>

record dependency =
  dep_ids :: "msg_id list"
  dep_all :: bool
  success :: bool
  failure :: bool

text \<open>Modelled from the spec: the constructor of class Dependency (ipyparallel/controller/dependency.py
  is not among the sources): a set of ids with the flags all (default true), success (default
  true) and failure (default false).\<close>

definition Dependency :: "msg_id list \<Rightarrow> bool \<Rightarrow> bool \<Rightarrow> bool \<Rightarrow> dependency" where
  "Dependency xs al suc fai =
     \<lparr>dep_ids = remdups xs, dep_all = al, success = suc, failure = fai\<rparr>"

text \<open>The metadata value of \<open>after\<close> and \<open>follow\<close>: a list of ids, or a descriptor with flags.\<close>

datatype dep_md = Md_ids "msg_id list" | Md_dict "msg_id list" bool bool bool

text \<open>Modelled from the spec: Dependency built from a metadata value, an id list (default flags)
  or a descriptor carrying its own ids and the flags all, success, failure.\<close>

fun Dependency_md :: "dep_md \<Rightarrow> dependency" where
  "Dependency_md (Md_ids xs) = Dependency xs True True False"
| "Dependency_md (Md_dict xs al suc fai) = Dependency xs al suc fai"

text \<open>Python truthiness of the metadata value: a non-empty list, or any descriptor dict.\<close>

fun md_truthy :: "dep_md option \<Rightarrow> bool" where
  "md_truthy None = False"
| "md_truthy (Some (Md_ids xs)) = (xs \<noteq> [])"
| "md_truthy (Some (Md_dict xs al suc fai)) = True"

text \<open>The module constant \<open>MET = Dependency([])\<close>.\<close>

definition MET :: dependency where
  "MET = Dependency [] True True False"

text \<open>Modelled from the spec: the relevant pool of a dependency, the union of C if success
  and F if failure (part of the missing class Dependency).\<close>

definition pool :: "dependency \<Rightarrow> msg_id set \<Rightarrow> msg_id set \<Rightarrow> msg_id set" where
  "pool d C F = (if success d then C else {}) \<union> (if failure d then F else {})"

text \<open>Modelled from the spec: Dependency.check (met): the empty dependency is always met; with
  all, every id lies in the relevant pool; without all, at least one does.\<close>

definition check :: "dependency \<Rightarrow> msg_id set \<Rightarrow> msg_id set \<Rightarrow> bool" where
  "check d C F =
     (dep_ids d = [] \<or>
      (if dep_all d then list_all (\<lambda>x. x \<in> pool d C F) (dep_ids d)
       else list_ex (\<lambda>x. x \<in> pool d C F) (dep_ids d)))"

text \<open>Modelled from the spec: Dependency.unreachable: with all, some finished id is not in the
  relevant pool; without all, every id is finished outside the relevant pool. The empty
  dependency is always met, hence never unreachable.\<close>

definition unreachable :: "dependency \<Rightarrow> msg_id set \<Rightarrow> msg_id set \<Rightarrow> bool" where
  "unreachable d C F =
     (dep_ids d \<noteq> [] \<and>
      (if dep_all d then list_ex (\<lambda>x. x \<in> (C \<union> F) - pool d C F) (dep_ids d)
       else list_all (\<lambda>x. x \<in> (C \<union> F) - pool d C F) (dep_ids d)))"

text \<open>Modelled from the spec: set difference of a Dependency, flags preserved.\<close>

definition difference :: "dependency \<Rightarrow> msg_id set \<Rightarrow> dependency" where
  "difference d S = d\<lparr>dep_ids := filter (\<lambda>x. x \<notin> S) (dep_ids d)\<rparr>"

text \<open>Modelled from the spec: set intersection of a Dependency, flags preserved.\<close>

definition intersection :: "dependency \<Rightarrow> msg_id set \<Rightarrow> dependency" where
  "intersection d S = d\<lparr>dep_ids := filter (\<lambda>x. x \<in> S) (dep_ids d)\<rparr>"

text \<open>Modelled from the spec: set union of two Dependencies, with the first operand's flags.\<close>

definition union_d :: "dependency \<Rightarrow> dependency \<Rightarrow> dependency" where
  "union_d d e = d\<lparr>dep_ids := dep_ids d @ filter (\<lambda>x. x \<notin> set (dep_ids d)) (dep_ids e)\<rparr>"

section \<open>Jobs and the scheduler state\<close>

text \<open>
  Class \<open>Job\<close>. The fields \<open>msg\<close>, \<open>header\<close> and \<open>metadata\<close> are only read for the
  msg_id, which the record holds directly.
\<close>

record job =
  msg_id :: msg_id
  raw_msg :: frames
  idents :: frames
  targets :: "engine_id set"
  after :: dependency
  follow :: dependency
  timeout :: "real option"
  removed :: bool
  timestamp :: real
  timeout_id :: int
  blacklist :: "engine_id set"

text \<open>\<open>Job.dependents\<close>: \<open>self.follow.union(self.after)\<close>.\<close>

definition dependents :: "job \<Rightarrow> msg_id list" where
  "dependents j = dep_ids (union_d (follow j) (after j))"

datatype ename = ImpossibleDependency | InvalidDependency | TaskTimeout | EngineError

text \<open>What the scheduler writes to its streams, in order.\<close>

datatype event =
    To_engine engine_id job_ref
  | Reply_error ename msg_id frames
  | Relay frames
  | Mon_intask frames
  | Mon_outtask_error ename msg_id frames
  | Mon_outtask frames
  | Mon_destination msg_id engine_id

datatype log_entry = Log_error string | Log_warning string | Log_info string | Log_debug string

datatype timer = Job_timer real job_ref int | Stranded_timer real engine_id

text \<open>
  Class \<open>TaskScheduler\<close> with the sets it inherits from \<open>Scheduler\<close>. \<open>scheme\<close> is the
  chooser; its first argument counts the earlier calls and stands for the state of the
  random number generator, and \<open>None\<close> means that the chooser raised. \<open>clock\<close> is what
  \<open>time.time()\<close> returns while a handler runs. \<open>queue_map\<close> and the per-engine
  \<open>pending\<close> dicts keep insertion order.
\<close>

record sched =
  hwm :: int
  scheme :: "nat \<Rightarrow> int list \<Rightarrow> int option"
  scheme_calls :: nat
  clock :: real
  heap :: "job_ref \<Rightarrow> job"
  next_ref :: job_ref
  queue :: "job_ref list"
  queue_map :: "(msg_id \<times> job_ref) list"
  graph :: "msg_id \<rightharpoonup> msg_id list"
  retries :: "msg_id \<rightharpoonup> int"
  pending :: "engine_id \<rightharpoonup> (msg_id \<times> job_ref) list"
  completed :: "engine_id \<rightharpoonup> msg_id set"
  failed :: "engine_id \<rightharpoonup> msg_id set"
  destinations :: "msg_id \<rightharpoonup> engine_id"
  targets_s :: "engine_id list"
  loads :: "int list"
  all_completed :: "msg_id set"
  all_failed :: "msg_id set"
  all_done :: "msg_id set"
  all_ids :: "msg_id set"
  outbox :: "event list"
  timers :: "timer list"
  logs :: "log_entry list"

definition log_msg :: "log_entry \<Rightarrow> sched \<Rightarrow> sched" where
  "log_msg e s = s\<lparr>logs := logs s @ [e]\<rparr>"

definition emit :: "event \<Rightarrow> sched \<Rightarrow> sched" where
  "emit e s = s\<lparr>outbox := outbox s @ [e]\<rparr>"

definition upd_job :: "job_ref \<Rightarrow> (job \<Rightarrow> job) \<Rightarrow> sched \<Rightarrow> sched" where
  "upd_job r f s = s\<lparr>heap := (heap s)(r := f (heap s r))\<rparr>"

section \<open>Chooser functions\<close>

definition lru :: "int list \<Rightarrow> int option" where
  "lru ls = Some 0"

text \<open>\<open>loads.index(min(loads))\<close>; \<open>min\<close> of an empty list raises.\<close>

definition leastload :: "int list \<Rightarrow> int option" where
  "leastload ls =
     (if ls = [] then None
      else Some (int (length (takeWhile (\<lambda>x. x \<noteq> Min (set ls)) ls))))"

section \<open>Python list indexing\<close>

text \<open>An index into a list of length n: negative indices count from the end.\<close>

definition py_norm :: "nat \<Rightarrow> int \<Rightarrow> nat option" where
  "py_norm n i =
     (if 0 \<le> i \<and> i < int n then Some (nat i)
      else if - int n \<le> i \<and> i < 0 then Some (nat (int n + i))
      else None)"

text \<open>\<open>lis.append(lis.pop(idx))\<close>\<close>

definition to_back :: "nat \<Rightarrow> 'a list \<Rightarrow> 'a list" where
  "to_back i xs = take i xs @ drop (Suc i) xs @ [xs ! i]"

text \<open>\<open>list.index\<close>: the position of the first occurrence, if any.\<close>

definition index_of :: "'a list \<Rightarrow> 'a \<Rightarrow> nat option" where
  "index_of xs x = (if x \<in> set xs then Some (length (takeWhile (\<lambda>y. y \<noteq> x) xs)) else None)"


section \<open>Engine table\<close>

text \<open>\<open>available_engines\<close>: the loop reads \<open>self.loads[idx]\<close> for every index of
  \<open>self.targets\<close>.\<close>

definition available_engines :: "sched \<Rightarrow> exn + nat list" where
  "available_engines s =
     (if hwm s = 0 then Inr [0..<length (targets_s s)]
      else if length (loads s) < length (targets_s s) then Inl IndexError
      else Inr (filter (\<lambda>idx. loads s ! idx < hwm s) [0..<length (targets_s s)]))"

text \<open>\<open>add_job\<close>: \<open>self.loads[idx] += 1\<close>, then both lists move the entry to the back.\<close>

definition add_job :: "int \<Rightarrow> sched \<Rightarrow> (exn + unit) \<times> sched" where
  "add_job idx s =
     (case py_norm (length (loads s)) idx of
        None \<Rightarrow> (Inl IndexError, s)
      | Some i \<Rightarrow>
         (let s1 = s\<lparr>loads := (loads s)[i := loads s ! i + 1]\<rparr>
          in case py_norm (length (targets_s s1)) idx of
               None \<Rightarrow> (Inl IndexError, s1)
             | Some j \<Rightarrow>
                (Inr (), s1\<lparr>targets_s := to_back j (targets_s s1),
                              loads := to_back i (loads s1)\<rparr>)))"

definition finish_job :: "nat \<Rightarrow> sched \<Rightarrow> (exn + unit) \<times> sched" where
  "finish_job idx s =
     (if idx < length (loads s) then (Inr (), s\<lparr>loads := (loads s)[idx := loads s ! idx - 1]\<rparr>)
      else (Inl IndexError, s))"

section \<open>The dependency graph\<close>

text \<open>\<open>set.add\<close> on a set kept as a list.\<close>

definition set_add :: "'a \<Rightarrow> 'a list \<Rightarrow> 'a list" where
  "set_add x xs = (if x \<in> set xs then xs else xs @ [x])"

text \<open>
  \<^verbatim>\<open>for mid in job.dependents:
      if mid in self.graph:
          self.graph[mid].remove(msg_id)\<close>
  \<open>set.remove\<close> raises KeyError when the element is absent.
\<close>

fun graph_remove ::
  "msg_id list \<Rightarrow> msg_id \<Rightarrow> (msg_id \<rightharpoonup> msg_id list) \<Rightarrow> (exn + unit) \<times> (msg_id \<rightharpoonup> msg_id list)"
where
  "graph_remove [] m g = (Inr (), g)"
| "graph_remove (mid # mids) m g =
     (case g mid of
        None \<Rightarrow> graph_remove mids m g
      | Some l \<Rightarrow>
         if m \<in> set l then graph_remove mids m (g(mid \<mapsto> removeAll m l))
         else (Inl KeyError, g))"

section \<open>Failing a waiting job\<close>

text \<open>The body of \<open>fail_unreachable\<close> for a msg_id found in \<open>queue_map\<close>, up to the final
  call of \<open>update_graph\<close>.\<close>

definition fail_job :: "job_ref \<Rightarrow> msg_id \<Rightarrow> ename \<Rightarrow> sched \<Rightarrow> (exn + unit) \<times> sched" where
  "fail_job r m why s =
     (let s1 = s\<lparr>queue_map := AList.delete m (queue_map s)\<rparr>;
          s2 = upd_job r (\<lambda>j. j\<lparr>removed := True\<rparr>) s1;
          job = heap s2 r
      in case graph_remove (dependents job) m (graph s2) of
           (Inl e, g) \<Rightarrow> (Inl e, s2\<lparr>graph := g\<rparr>)
         | (Inr u, g) \<Rightarrow>
            (let s3 = log_msg (Log_debug ''task failing as unreachable'') (s2\<lparr>graph := g\<rparr>);
                 s4 = s3\<lparr>all_done := insert m (all_done s3)\<rparr>;
                 s5 = s4\<lparr>all_failed := insert m (all_failed s4)\<rparr>;
                 s6 = emit (Reply_error why (msg_id job) (idents job)) s5;
                 s7 = emit (Mon_outtask_error why (msg_id job) (idents job)) s6
             in (Inr (), s7)))"

section \<open>Placement\<close>

text \<open>The closure \<open>can_run\<close> of \<open>maybe_run\<close>.\<close>

definition can_run :: "sched \<Rightarrow> job \<Rightarrow> nat \<Rightarrow> exn + bool" where
  "can_run s j idx =
     (if hwm s \<noteq> 0 \<and> \<not> idx < length (loads s) then Inl IndexError
      else if hwm s \<noteq> 0 \<and> loads s ! idx = hwm s then Inr False
      else if \<not> idx < length (targets_s s) then Inl IndexError
      else
        (let target = targets_s s ! idx
         in if target \<in> blacklist j then Inr False
            else if targets j \<noteq> {} \<and> target \<notin> targets j then Inr False
            else
              (case completed s target of
                 None \<Rightarrow> Inl KeyError
               | Some c \<Rightarrow>
                  (case failed s target of
                     None \<Rightarrow> Inl KeyError
                   | Some f \<Rightarrow> Inr (check (follow j) c f)))))"

text \<open>\<open>list(filter(can_run, available))\<close>\<close>

fun filter_can_run :: "sched \<Rightarrow> job \<Rightarrow> nat list \<Rightarrow> exn + nat list" where
  "filter_can_run s j [] = Inr []"
| "filter_can_run s j (i # is) =
     (case can_run s j i of
        Inl e \<Rightarrow> Inl e
      | Inr b \<Rightarrow>
         (case filter_can_run s j is of
            Inl e \<Rightarrow> Inl e
          | Inr rest \<Rightarrow> Inr (if b then i # rest else rest)))"

text \<open>
  The set \<open>dests\<close> that \<open>maybe_run\<close> collects when \<open>job.follow.all\<close>:
  \<^verbatim>\<open>relevant = set()
  if job.follow.success: relevant = self.all_completed
  if job.follow.failure: relevant = relevant.union(self.all_failed)
  for m in job.follow.intersection(relevant):
      dests.add(self.destinations[m])\<close>
\<close>

definition follow_dests :: "sched \<Rightarrow> job \<Rightarrow> exn + engine_id set" where
  "follow_dests s j =
     (let relevant = (if success (follow j) then all_completed s else {}) \<union>
                     (if failure (follow j) then all_failed s else {});
          ms = dep_ids (intersection (follow j) relevant)
      in if list_ex (\<lambda>m. destinations s m = None) ms then Inl KeyError
         else Inr (set (map (\<lambda>m. the (destinations s m)) ms)))"

text \<open>\<open>submit_task\<close>\<close>

definition submit_task :: "job_ref \<Rightarrow> nat list option \<Rightarrow> sched \<Rightarrow> (exn + unit) \<times> sched" where
  "submit_task r indices s =
     (let job = heap s r;
          sub = (case indices of None \<Rightarrow> [] | Some is \<Rightarrow> is)
      in case (if sub \<noteq> [] then
                 (if list_all (\<lambda>i. i < length (loads s)) sub
                  then Inr (map (\<lambda>i. loads s ! i) sub) else Inl IndexError)
               else Inr (loads s)) of
           Inl e \<Rightarrow> (Inl e, s)
         | Inr ls \<Rightarrow>
            (let s1 = s\<lparr>scheme_calls := Suc (scheme_calls s)\<rparr>
             in case scheme s (scheme_calls s) ls of
                  None \<Rightarrow> (Inl ValueError, s1)
                | Some c \<Rightarrow>
                   (case (if sub \<noteq> [] then
                            (case py_norm (length sub) c of
                               None \<Rightarrow> None
                             | Some k \<Rightarrow> Some (int (sub ! k)))
                          else Some c) of
                      None \<Rightarrow> (Inl IndexError, s1)
                    | Some idx \<Rightarrow>
                       (case py_norm (length (targets_s s1)) idx of
                          None \<Rightarrow> (Inl IndexError, s1)
                        | Some t \<Rightarrow>
                           (let target = targets_s s1 ! t;
                                s2 = emit (To_engine target r) s1
                            in case add_job idx s2 of
                                 (Inl e, s3) \<Rightarrow> (Inl e, s3)
                               | (Inr u, s3) \<Rightarrow>
                                  (case pending s3 target of
                                     None \<Rightarrow> (Inl KeyError, s3)
                                   | Some p \<Rightarrow>
                                      (Inr (),
                                       emit (Mon_destination (msg_id job) target)
                                         (s3\<lparr>pending := (pending s3)
                                               (target \<mapsto> AList.update (msg_id job) r p)\<rparr>))))))))"

text \<open>The part of the loop body of \<open>update_graph\<close> that follows a successful \<open>maybe_run\<close>:
  \<open>self.queue_map.pop(msg_id)\<close> and the removal of the job from the graph.\<close>

definition after_run :: "job_ref \<Rightarrow> sched \<Rightarrow> (exn + unit) \<times> sched" where
  "after_run r s =
     (let job = heap s r; m = msg_id job
      in case map_of (queue_map s) m of
           None \<Rightarrow> (Inl KeyError, s)
         | Some r' \<Rightarrow>
            (let s1 = s\<lparr>queue_map := AList.delete m (queue_map s)\<rparr>
             in case graph_remove (dependents job) m (graph s1) of
                  (res, g) \<Rightarrow> (res, s1\<lparr>graph := g\<rparr>)))"

text \<open>\<open>sorted(self.queue_map[msg_id] for msg_id in msg_ids)\<close>: the lookups.\<close>

fun lookup_jobs :: "(msg_id \<times> job_ref) list \<Rightarrow> msg_id list \<Rightarrow> exn + job_ref list" where
  "lookup_jobs qm [] = Inr []"
| "lookup_jobs qm (m # ms) =
     (case map_of qm m of
        None \<Rightarrow> Inl KeyError
      | Some r \<Rightarrow> (case lookup_jobs qm ms of Inl e \<Rightarrow> Inl e | Inr rs \<Rightarrow> Inr (r # rs)))"


section \<open>The recursive core: fail_unreachable, update_graph, maybe_run\<close>

text \<open>
  \<open>fail_unreachable\<close> ends with \<open>update_graph\<close>, whose loop calls \<open>fail_unreachable\<close>
  and \<open>maybe_run\<close>, which calls \<open>fail_unreachable\<close>. Each body below takes the methods
  it calls as arguments; the methods themselves are obtained by recursion on the fuel, so
  that every call inside this cycle and every iteration of the loop takes one unit of
  fuel, and a call without fuel is \<open>None\<close>.
\<close>

type_synonym fail_unreachable_t = "msg_id \<Rightarrow> ename \<Rightarrow> sched \<Rightarrow> (unit, sched) res"
type_synonym update_graph_t = "msg_id option \<Rightarrow> bool \<Rightarrow> sched \<Rightarrow> (unit, sched) res"
type_synonym ug_loop_t = "bool \<Rightarrow> job_ref list \<Rightarrow> job_ref list \<Rightarrow> sched \<Rightarrow> (job_ref list, sched) res"
type_synonym maybe_run_t = "job_ref \<Rightarrow> sched \<Rightarrow> (bool, sched) res"

definition fail_unreachable_body :: "update_graph_t \<Rightarrow> fail_unreachable_t" where
  "fail_unreachable_body ug m why s =
     (case map_of (queue_map s) m of
        None \<Rightarrow> Some (Inr (), log_msg (Log_error ''task already failed!'') s)
      | Some r \<Rightarrow>
         (case fail_job r m why s of
            (Inl e, s1) \<Rightarrow> Some (Inl e, s1)
          | (Inr u, s1) \<Rightarrow> ug (Some m) False s1))"

text \<open>\<open>msg_ids = self.graph.pop(dep_id, [])\<close>; \<open>None\<close> is never a key of the graph.\<close>

definition graph_pop :: "msg_id option \<Rightarrow> sched \<Rightarrow> msg_id list \<times> sched" where
  "graph_pop dep_id s =
     (case dep_id of
        None \<Rightarrow> ([], s)
      | Some d \<Rightarrow>
         (case graph s d of
            None \<Rightarrow> ([], s)
          | Some l \<Rightarrow> (l, s\<lparr>graph := (graph s)(d := None)\<rparr>)))"

text \<open>The condition under which \<open>update_graph\<close> rechecks all jobs:
  \<^verbatim>\<open>dep_id is None or self.hwm and any([load == self.hwm - 1 for load in self.loads])\<close>\<close>

definition full_scan :: "msg_id option \<Rightarrow> sched \<Rightarrow> bool" where
  "full_scan dep_id s =
     (dep_id = None \<or> (hwm s \<noteq> 0 \<and> list_ex (\<lambda>load. load = hwm s - 1) (loads s)))"

text \<open>
  With \<open>using_queue\<close> the deque \<open>jobs\<close> of \<open>update_graph\<close> is \<open>self.queue\<close> itself;
  otherwise it is a local deque sorted by timestamp. \<open>graph[dep_id]\<close> is a set in the
  code and a list without duplicates here, walked in the order of insertion; \<open>sorted\<close>
  is stable, so this order shows only among jobs with equal timestamps.
  \<open>deque.extendleft\<close> appends the elements one by one on the left, which reverses their
  order.
\<close>

definition update_graph_body :: "ug_loop_t \<Rightarrow> update_graph_t" where
  "update_graph_body lp dep_id succ s =
     (case graph_pop dep_id s of
        (msg_ids, s1) \<Rightarrow>
          if full_scan dep_id s1 then
            (case lp True [] [] s1 of
               None \<Rightarrow> None
             | Some (Inl e, s2) \<Rightarrow> Some (Inl e, s2)
             | Some (Inr to_restore, s2) \<Rightarrow>
                Some (Inr (), s2\<lparr>queue := rev to_restore @ queue s2\<rparr>))
          else
            (case lookup_jobs (queue_map s1) msg_ids of
               Inl e \<Rightarrow> Some (Inl e, s1)
             | Inr refs \<Rightarrow>
                (case lp False (sort_key (\<lambda>r. timestamp (heap s1 r)) refs) [] s1 of
                   None \<Rightarrow> None
                 | Some (Inl e, s2) \<Rightarrow> Some (Inl e, s2)
                 | Some (Inr to_restore, s2) \<Rightarrow> Some (Inr (), s2))))"

text \<open>
  \<open>while jobs: job = jobs.popleft()\<close>. With \<open>using_queue\<close> the loop pops from the
  queue of the current state, so nested calls see and change the same deque.
\<close>

definition pop_job :: "bool \<Rightarrow> job_ref list \<Rightarrow> sched \<Rightarrow> (job_ref \<times> job_ref list \<times> sched) option" where
  "pop_job using_queue jobs s =
     (if using_queue then
        (case queue s of [] \<Rightarrow> None | r # rest \<Rightarrow> Some (r, jobs, s\<lparr>queue := rest\<rparr>))
      else
        (case jobs of [] \<Rightarrow> None | r # rest \<Rightarrow> Some (r, rest, s)))"

text \<open>
  The loop of \<open>update_graph\<close>: one iteration, and the rest of the loop (\<open>lp\<close>). The
  loop returns \<open>to_restore\<close>; \<open>break\<close> leaves it with the list collected so far.
\<close>

definition ug_loop_body :: "fail_unreachable_t \<Rightarrow> maybe_run_t \<Rightarrow> ug_loop_t \<Rightarrow> ug_loop_t" where
  "ug_loop_body fu mr lp using_queue jobs to_restore s =
     (case pop_job using_queue jobs s of
        None \<Rightarrow> Some (Inr to_restore, s)
      | Some (r, jobs1, s1) \<Rightarrow>
         (let job = heap s1 r;
              restored = (if using_queue then to_restore @ [r] else to_restore)
          in if removed job then lp using_queue jobs1 to_restore s1
             else if unreachable (after job) (all_completed s1) (all_failed s1)
                   \<or> unreachable (follow job) (all_completed s1) (all_failed s1) then
               (case fu (msg_id job) ImpossibleDependency s1 of
                  None \<Rightarrow> None
                | Some (Inl e, s2) \<Rightarrow> Some (Inl e, s2)
                | Some (Inr u, s2) \<Rightarrow> lp using_queue jobs1 to_restore s2)
             else if check (after job) (all_completed s1) (all_failed s1) then
               (case mr r s1 of
                  None \<Rightarrow> None
                | Some (Inl e, s2) \<Rightarrow> Some (Inl e, s2)
                | Some (Inr True, s2) \<Rightarrow>
                   (case after_run r s2 of
                      (Inl e, s3) \<Rightarrow> Some (Inl e, s3)
                    | (Inr u, s3) \<Rightarrow>
                       (case available_engines s3 of
                          Inl e \<Rightarrow> Some (Inl e, s3)
                        | Inr av \<Rightarrow>
                           if av = [] then Some (Inr to_restore, s3)
                           else lp using_queue jobs1 to_restore s3))
                | Some (Inr False, s2) \<Rightarrow> lp using_queue jobs1 restored s2)
             else lp using_queue jobs1 restored s1))"

text \<open>\<open>self.queue_map[msg_id] = job\<close>\<close>

definition queue_map_set :: "msg_id \<Rightarrow> job_ref \<Rightarrow> sched \<Rightarrow> sched" where
  "queue_map_set m r s = s\<lparr>queue_map := AList.update m r (queue_map s)\<rparr>"

text \<open>\<open>job.targets.difference_update(job.blacklist)\<close>\<close>

definition prune_targets :: "job_ref \<Rightarrow> sched \<Rightarrow> sched" where
  "prune_targets r s = upd_job r (\<lambda>j. j\<lparr>targets := targets j - blacklist j\<rparr>) s"

definition maybe_run_body :: "fail_unreachable_t \<Rightarrow> maybe_run_t" where
  "maybe_run_body fu r s =
     (let job = heap s r; m = msg_id job;
          s0 = log_msg (Log_debug ''Attempting to assign task'') s
      in case available_engines s0 of
           Inl e \<Rightarrow> Some (Inl e, s0)
         | Inr available \<Rightarrow>
            if available = [] then Some (Inr False, s0)
            else if dep_ids (follow job) \<noteq> [] \<or> targets job \<noteq> {} \<or> blacklist job \<noteq> {}
                    \<or> hwm s0 \<noteq> 0 then
              (case filter_can_run s0 job available of
                 Inl e \<Rightarrow> Some (Inl e, s0)
               | Inr indices \<Rightarrow>
                  if indices = [] then
                    (case (if dep_all (follow job) then follow_dests s0 job else Inr {}) of
                       Inl e \<Rightarrow> Some (Inl e, s0)
                     | Inr dests \<Rightarrow>
                        if card dests > 1 then
                          (case fu m ImpossibleDependency (queue_map_set m r s0) of
                             None \<Rightarrow> None
                           | Some (Inl e, s2) \<Rightarrow> Some (Inl e, s2)
                           | Some (Inr u, s2) \<Rightarrow> Some (Inr False, s2))
                        else if targets job \<noteq> {} then
                          (let s1 = prune_targets r s0;
                               job1 = heap s1 r
                           in if targets job1 = {} \<or> targets job1 \<inter> set (targets_s s1) = {} then
                                (case fu m ImpossibleDependency (queue_map_set m r s1) of
                                   None \<Rightarrow> None
                                 | Some (Inl e, s2) \<Rightarrow> Some (Inl e, s2)
                                 | Some (Inr u, s2) \<Rightarrow> Some (Inr False, s2))
                              else Some (Inr False, s1))
                        else Some (Inr False, s0))
                  else
                    (case submit_task r (Some indices) s0 of
                       (Inl e, s2) \<Rightarrow> Some (Inl e, s2)
                     | (Inr u, s2) \<Rightarrow> Some (Inr True, s2)))
            else
              (case submit_task r None s0 of
                 (Inl e, s2) \<Rightarrow> Some (Inl e, s2)
               | (Inr u, s2) \<Rightarrow> Some (Inr True, s2)))"

text \<open>The four methods with n units of fuel.\<close>

primrec methods ::
  "nat \<Rightarrow> fail_unreachable_t \<times> update_graph_t \<times> ug_loop_t \<times> maybe_run_t"
where
  "methods 0 =
     (fail_unreachable_body (\<lambda>d b s. None),
      update_graph_body (\<lambda>u js tr s. None),
      ug_loop_body (\<lambda>m w s. None) (\<lambda>r s. None) (\<lambda>u js tr s. None),
      maybe_run_body (\<lambda>m w s. None))"
| "methods (Suc k) =
     (case methods k of
        (fu, ug, lp, mr) \<Rightarrow>
          (fail_unreachable_body ug,
           update_graph_body lp,
           ug_loop_body fu mr lp,
           maybe_run_body fu))"

definition fail_unreachable :: "nat \<Rightarrow> fail_unreachable_t" where
  "fail_unreachable n = fst (methods n)"

definition update_graph :: "nat \<Rightarrow> update_graph_t" where
  "update_graph n = fst (snd (methods n))"

definition ug_loop :: "nat \<Rightarrow> ug_loop_t" where
  "ug_loop n = fst (snd (snd (methods n)))"

definition maybe_run :: "nat \<Rightarrow> maybe_run_t" where
  "maybe_run n = snd (snd (snd (methods n)))"


section \<open>Waiting jobs and timeouts\<close>

text \<open>\<open>save_unmet\<close>. The timer closure captures the job and the new \<open>timeout_id\<close>.\<close>

definition save_unmet :: "job_ref \<Rightarrow> sched \<Rightarrow> sched" where
  "save_unmet r s =
     (let job = heap s r; m = msg_id job;
          s1 = log_msg (Log_debug ''Adding task to the queue'') s;
          s2 = queue_map_set m r s1;
          s3 = s2\<lparr>queue := queue s2 @ [r]\<rparr>;
          deps = dep_ids (difference (union_d (after job) (follow job)) (all_done s3));
          s4 = s3\<lparr>graph := fold (\<lambda>d g. g(d \<mapsto> set_add m (case g d of None \<Rightarrow> [] | Some l \<Rightarrow> l)))
                              deps (graph s3)\<rparr>
      in case timeout job of
           None \<Rightarrow> s4
         | Some t \<Rightarrow>
            if t = 0 then s4
            else
              (let tid = timeout_id job + 1;
                   s5 = upd_job r (\<lambda>j. j\<lparr>timeout_id := tid\<rparr>) s4
               in s5\<lparr>timers := timers s5 @ [Job_timer (clock s5 + t) r tid]\<rparr>))"

text \<open>\<open>job_timeout\<close>, the callback of a job's timer. Times are reals where the code has
  floats; the comparison with the clock decides the warning alone.\<close>

definition job_timeout :: "nat \<Rightarrow> job_ref \<Rightarrow> int \<Rightarrow> sched \<Rightarrow> (unit, sched) res" where
  "job_timeout n r tid s =
     (let job = heap s r
      in if timeout_id job \<noteq> tid then Some (Inr (), s)
         else
           (case timeout job of
              None \<Rightarrow> Some (Inl TypeError, s)
            | Some t \<Rightarrow>
               (let s1 = (if t \<ge> clock s + 1
                          then log_msg (Log_warning ''task timeout fired prematurely'') s else s)
                in if map_of (queue_map s1) (msg_id job) \<noteq> None then
                     fail_unreachable n (msg_id job) TaskTimeout
                       (log_msg (Log_info ''task timed out'') s1)
                   else Some (Inr (), s1))))"

section \<open>Job submission\<close>

text \<open>A task message whose envelope parsed, with the metadata fields the scheduler reads
  (defaults applied as by \<open>md.get\<close>).\<close>

record submission =
  sub_raw :: frames
  sub_idents :: frames
  sub_msg_id :: msg_id
  sub_targets :: "engine_id list"
  sub_retries :: int
  sub_after :: "dep_md option"
  sub_follow :: "dep_md option"
  sub_timeout :: "real option"

text \<open>The block \<open># time dependencies\<close> of \<open>dispatch_submission\<close>, which computes
  \<open>after\<close>.\<close>

definition submission_after :: "dep_md option \<Rightarrow> sched \<Rightarrow> dependency" where
  "submission_after md s =
     (if md_truthy md then
        (let a0 = Dependency_md (the md);
             a1 = (if dep_all a0 \<and> success a0
                   then Dependency (dep_ids (difference a0 (all_completed s)))
                          (dep_all a0) (success a0) (failure a0)
                   else a0);
             a2 = (if dep_all a0 \<and> failure a1
                   then Dependency (dep_ids (difference a1 (all_failed s)))
                          (dep_all a1) (success a1) (failure a1)
                   else a1)
         in if check a2 (all_completed s) (all_failed s) then MET else a2)
      else MET)"

text \<open>One round of the loop \<open>for dep in after, follow\<close>: the error to fail with, if any.\<close>

definition validate_dep :: "msg_id \<Rightarrow> dependency \<Rightarrow> sched \<Rightarrow> ename option" where
  "validate_dep m dep s =
     (if dep_ids dep = [] then None
      else if m \<in> set (dep_ids dep) \<or> dep_ids (difference dep (all_ids s)) \<noteq> []
        then Some InvalidDependency
      else if unreachable dep (all_completed s) (all_failed s) then Some ImpossibleDependency
      else None)"

text \<open>The first part of \<open>dispatch_submission\<close>, from the message to the monitor up to
  the new \<open>Job\<close>, which the store holds at the reference \<open>next_ref\<close>.\<close>

definition new_job :: "submission \<Rightarrow> sched \<Rightarrow> sched" where
  "new_job sub s =
     (let s1 = emit (Mon_intask (sub_raw sub)) s;
          m = sub_msg_id sub;
          s2 = s1\<lparr>all_ids := insert m (all_ids s1)\<rparr>;
          tg = set (sub_targets sub);
          s3 = s2\<lparr>retries := (retries s2)(m \<mapsto> sub_retries sub)\<rparr>;
          aft = submission_after (sub_after sub) s3;
          fol = (case sub_follow sub of None \<Rightarrow> Dependency [] True True False
                 | Some md \<Rightarrow> Dependency_md md);
          r = next_ref s3;
          job = \<lparr>msg_id = m, raw_msg = sub_raw sub, idents = sub_idents sub, targets = tg,
                 after = aft, follow = fol, timeout = sub_timeout sub, removed = False,
                 timestamp = clock s3, timeout_id = 0, blacklist = {}\<rparr>
      in s3\<lparr>heap := (heap s3)(r := job), next_ref := Suc r\<rparr>)"

text \<open>The rest of \<open>dispatch_submission\<close>: the validation loop \<open>for dep in after, follow\<close>,
  then the attempt to run the job.\<close>

definition dispatch_submission_body :: "nat \<Rightarrow> submission \<Rightarrow> sched \<Rightarrow> (unit, sched) res" where
  "dispatch_submission_body n sub s =
     (let s4 = new_job sub s;
          r = next_ref s;
          m = sub_msg_id sub;
          job = heap s4 r
      in case (case validate_dep m (after job) s4 of Some why \<Rightarrow> Some why
               | None \<Rightarrow> validate_dep m (follow job) s4) of
           Some why \<Rightarrow> fail_unreachable n m why (queue_map_set m r s4)
         | None \<Rightarrow>
            if check (after job) (all_completed s4) (all_failed s4) then
              (case maybe_run n r s4 of
                 None \<Rightarrow> None
               | Some (Inl e, s5) \<Rightarrow> Some (Inl e, s5)
               | Some (Inr True, s5) \<Rightarrow> Some (Inr (), s5)
               | Some (Inr False, s5) \<Rightarrow>
                  if m \<notin> all_failed s5 then Some (Inr (), save_unmet r s5)
                  else Some (Inr (), s5))
            else Some (Inr (), save_unmet r s4))"

text \<open>Modelled from the spec: the decorator util.log_errors (ipyparallel/util.py is not among
  the sources): an exception inside a handler is logged, the handler returns, and the
  scheduler remains live.\<close>

definition log_errors :: "(unit, sched) res \<Rightarrow> (unit, sched) res" where
  "log_errors x =
     (case x of
        None \<Rightarrow> None
      | Some (Inl e, s) \<Rightarrow> Some (Inr (), log_msg (Log_error ''Uncaught exception'') s)
      | Some (Inr u, s) \<Rightarrow> Some (Inr u, s))"

text \<open>\<open>dispatch_submission\<close>; \<open>None\<close> as message is an envelope that did not parse.\<close>

definition dispatch_submission :: "nat \<Rightarrow> submission option \<Rightarrow> sched \<Rightarrow> (unit, sched) res" where
  "dispatch_submission n msg s =
     log_errors
       (case msg of
          None \<Rightarrow> Some (Inr (), log_msg (Log_error ''task::Invaid task msg'') s)
        | Some sub \<Rightarrow> dispatch_submission_body n sub s)"

section \<open>Result handling\<close>

text \<open>A reply whose envelope parsed: routing identities, the msg_id of the parent header,
  \<open>md.get('dependencies_met', True)\<close> and \<open>md['status']\<close>.\<close>

record result_msg =
  res_raw :: frames
  res_idents :: frames
  res_msg_id :: msg_id
  res_dependencies_met :: bool
  res_status :: string

definition handle_result ::
  "nat \<Rightarrow> frames \<Rightarrow> msg_id \<Rightarrow> frames \<Rightarrow> bool \<Rightarrow> sched \<Rightarrow> (frames, sched) res"
where
  "handle_result n ids m raw succ s =
     (if length ids < 2 then Some (Inl IndexError, s)
      else
        (let engine = ids ! 0; client = ids ! 1;
             raw1 = client # engine # drop 2 raw;
             s1 = emit (Relay raw1) s
         in case pending s1 engine of
              None \<Rightarrow> Some (Inl KeyError, s1)
            | Some p \<Rightarrow>
               (case map_of p m of
                  None \<Rightarrow> Some (Inl KeyError, s1)
                | Some r \<Rightarrow>
                   (let s2 = s1\<lparr>pending := (pending s1)(engine \<mapsto> AList.delete m p)\<rparr>
                    in case (if succ then completed s2 engine else failed s2 engine) of
                         None \<Rightarrow> Some (Inl KeyError, s2)
                       | Some done_here \<Rightarrow>
                          (let s3 = (if succ
                                     then s2\<lparr>completed := (completed s2)(engine \<mapsto> insert m done_here),
                                             all_completed := insert m (all_completed s2)\<rparr>
                                     else s2\<lparr>failed := (failed s2)(engine \<mapsto> insert m done_here),
                                             all_failed := insert m (all_failed s2)\<rparr>);
                               s4 = s3\<lparr>all_done := insert m (all_done s3)\<rparr>;
                               s5 = s4\<lparr>destinations := (destinations s4)(m \<mapsto> engine)\<rparr>
                           in case update_graph n (Some m) succ s5 of
                                None \<Rightarrow> None
                              | Some (Inl e, s6) \<Rightarrow> Some (Inl e, s6)
                              | Some (Inr u, s6) \<Rightarrow> Some (Inr raw1, s6))))))"

definition handle_unmet_dependency :: "nat \<Rightarrow> frames \<Rightarrow> msg_id \<Rightarrow> sched \<Rightarrow> (unit, sched) res" where
  "handle_unmet_dependency n ids m s =
     (case ids of
        [] \<Rightarrow> Some (Inl IndexError, s)
      | engine # ids' \<Rightarrow>
         (case pending s engine of
            None \<Rightarrow> Some (Inl KeyError, s)
          | Some p \<Rightarrow>
             (case map_of p m of
                None \<Rightarrow> Some (Inl KeyError, s)
              | Some r \<Rightarrow>
                 (let s1 = s\<lparr>pending := (pending s)(engine \<mapsto> AList.delete m p)\<rparr>;
                      s2 = upd_job r (\<lambda>j. j\<lparr>blacklist := insert engine (blacklist j)\<rparr>) s1;
                      job = heap s2 r
                  in case (if blacklist job = targets job then
                             fail_unreachable n m ImpossibleDependency (queue_map_set m r s2)
                           else
                             (case maybe_run n r s2 of
                                None \<Rightarrow> None
                              | Some (Inl e, s3) \<Rightarrow> Some (Inl e, s3)
                              | Some (Inr True, s3) \<Rightarrow> Some (Inr (), s3)
                              | Some (Inr False, s3) \<Rightarrow>
                                 if m \<notin> all_failed s3 then Some (Inr (), save_unmet r s3)
                                 else Some (Inr (), s3))) of
                       None \<Rightarrow> None
                     | Some (Inl e, s4) \<Rightarrow> Some (Inl e, s4)
                     | Some (Inr u, s4) \<Rightarrow>
                        if hwm s4 \<noteq> 0 then
                          (case index_of (targets_s s4) engine of
                             None \<Rightarrow> Some (Inr (), s4)
                           | Some idx \<Rightarrow>
                              if \<not> idx < length (loads s4) then Some (Inl IndexError, s4)
                              else if loads s4 ! idx = hwm s4 - 1 then update_graph n None True s4
                              else Some (Inr (), s4))
                        else Some (Inr (), s4)))))"

text \<open>\<open>dispatch_result\<close> without its decorator. The first \<open>try\<close> block logs and returns
  on any exception.\<close>

definition dispatch_result_body :: "nat \<Rightarrow> result_msg \<Rightarrow> sched \<Rightarrow> (unit, sched) res" where
  "dispatch_result_body n msg s =
     (case res_idents msg of
        [] \<Rightarrow> Some (Inr (), log_msg (Log_error ''task::Invalid result'') s)
      | engine # ids' \<Rightarrow>
         (case (case index_of (targets_s s) engine of
                  None \<Rightarrow> (Inr (), s)
                | Some idx \<Rightarrow> finish_job idx s) of
            (Inl e, s1) \<Rightarrow> Some (Inr (), log_msg (Log_error ''task::Invalid result'') s1)
          | (Inr u, s1) \<Rightarrow>
             (let m = res_msg_id msg
              in if res_dependencies_met msg then
                   (let succ = (res_status msg = ''ok'')
                    in case retries s1 m of
                         None \<Rightarrow> Some (Inl KeyError, s1)
                       | Some rt \<Rightarrow>
                          if \<not> succ \<and> rt > 0 then
                            handle_unmet_dependency n (res_idents msg) m
                              (s1\<lparr>retries := (retries s1)(m \<mapsto> rt - 1)\<rparr>)
                          else
                            (case handle_result n (res_idents msg) m (res_raw msg) succ
                                    (s1\<lparr>retries := (retries s1)(m := None)\<rparr>) of
                               None \<Rightarrow> None
                             | Some (Inl e, s2) \<Rightarrow> Some (Inl e, s2)
                             | Some (Inr raw1, s2) \<Rightarrow> Some (Inr (), emit (Mon_outtask raw1) s2)))
                 else handle_unmet_dependency n (res_idents msg) m s1)))"

definition dispatch_result :: "nat \<Rightarrow> result_msg option \<Rightarrow> sched \<Rightarrow> (unit, sched) res" where
  "dispatch_result n msg s =
     log_errors
       (case msg of
          None \<Rightarrow> Some (Inr (), log_msg (Log_error ''task::Invalid result'') s)
        | Some m \<Rightarrow> dispatch_result_body n m s)"

section \<open>Registration and unregistration of engines\<close>

definition register_engine :: "nat \<Rightarrow> engine_id \<Rightarrow> sched \<Rightarrow> (unit, sched) res" where
  "register_engine n uid s =
     (let s1 = s\<lparr>targets_s := uid # targets_s s\<rparr>;
          s2 = s1\<lparr>loads := 0 # loads s1\<rparr>;
          s3 = s2\<lparr>completed := (completed s2)(uid \<mapsto> {})\<rparr>;
          s4 = s3\<lparr>failed := (failed s3)(uid \<mapsto> {})\<rparr>;
          s5 = s4\<lparr>pending := (pending s4)(uid \<mapsto> [])\<rparr>
      in update_graph n None True s5)"

text \<open>\<open>_unregister_engine\<close>. \<open>self.engine_stream.flush()\<close> handles the replies that have
  already arrived; in the model they are earlier inputs.\<close>

definition unregister_engine :: "engine_id \<Rightarrow> sched \<Rightarrow> (exn + unit) \<times> sched" where
  "unregister_engine uid s =
     (case index_of (targets_s s) uid of
        None \<Rightarrow> (Inl ValueError, s)
      | Some idx \<Rightarrow>
         (let s1 = s\<lparr>targets_s := take idx (targets_s s) @ drop (Suc idx) (targets_s s)\<rparr>
          in if \<not> idx < length (loads s1) then (Inl IndexError, s1)
             else
               (let s2 = s1\<lparr>loads := take idx (loads s1) @ drop (Suc idx) (loads s1)\<rparr>
                in case pending s2 uid of
                     None \<Rightarrow> (Inl KeyError, s2)
                   | Some p \<Rightarrow>
                      if p \<noteq> [] then
                        (Inr (), s2\<lparr>timers := timers s2 @ [Stranded_timer (clock s2 + 5) uid]\<rparr>)
                      else
                        (case completed s2 uid of
                           None \<Rightarrow> (Inl KeyError, s2)
                         | Some c \<Rightarrow>
                            (let s3 = s2\<lparr>completed := (completed s2)(uid := None)\<rparr>
                             in case failed s3 uid of
                                  None \<Rightarrow> (Inl KeyError, s3)
                                | Some f \<Rightarrow> (Inr (), s3\<lparr>failed := (failed s3)(uid := None)\<rparr>))))))"

text \<open>
  The loop of \<open>handle_stranded_tasks\<close> over \<open>list(lost.keys())\<close>, where \<open>lost\<close> is the
  dict \<open>self.pending[engine]\<close>. The fake reply has the identities \<open>[engine, idents[0]]\<close>,
  status error and no \<open>dependencies_met\<close>; \<open>dispatch_result\<close> logs its own exceptions.
\<close>

fun stranded_loop :: "nat \<Rightarrow> engine_id \<Rightarrow> msg_id list \<Rightarrow> sched \<Rightarrow> (unit, sched) res" where
  "stranded_loop n engine [] s = Some (Inr (), s)"
| "stranded_loop n engine (m # ms) s =
     (case map_of (case pending s engine of None \<Rightarrow> [] | Some p \<Rightarrow> p) m of
        None \<Rightarrow> stranded_loop n engine ms s
      | Some r \<Rightarrow>
         (case idents (heap s r) of
            [] \<Rightarrow> Some (Inl IndexError, s)
          | client # ids' \<Rightarrow>
             (case dispatch_result n
                     (Some \<lparr>res_raw = [engine, client, ''EngineError'', m],
                            res_idents = [engine, client], res_msg_id = msg_id (heap s r),
                            res_dependencies_met = True, res_status = ''error''\<rparr>) s of
                None \<Rightarrow> None
              | Some (Inl e, s1) \<Rightarrow> Some (Inl e, s1)
              | Some (Inr u, s1) \<Rightarrow> stranded_loop n engine ms s1)))"

definition handle_stranded_tasks :: "nat \<Rightarrow> engine_id \<Rightarrow> sched \<Rightarrow> (unit, sched) res" where
  "handle_stranded_tasks n engine s =
     (case pending s engine of
        None \<Rightarrow> Some (Inl KeyError, s)
      | Some lost \<Rightarrow>
         (case stranded_loop n engine (map fst lost) s of
            None \<Rightarrow> None
          | Some (Inl e, s1) \<Rightarrow> Some (Inl e, s1)
          | Some (Inr u, s1) \<Rightarrow>
             (case completed s1 engine of
                None \<Rightarrow> Some (Inl KeyError, s1)
              | Some c \<Rightarrow>
                 (let s2 = s1\<lparr>completed := (completed s1)(engine := None)\<rparr>
                  in case failed s2 engine of
                       None \<Rightarrow> Some (Inl KeyError, s2)
                     | Some f \<Rightarrow> Some (Inr (), s2\<lparr>failed := (failed s2)(engine := None)\<rparr>)))))"

section \<open>The scheduler as a reactor\<close>

datatype input =
    Submission "submission option"
  | Result "result_msg option"
  | Registration engine_id
  | Unregistration engine_id
  | Stranded_fired engine_id
  | Timeout_fired job_ref int

text \<open>
  One input handled at time \<open>now\<close>. \<open>dispatch_notification\<close> logs the exceptions of the
  registration handlers; an exception of a timer callback goes to the event loop, which
  logs it. In every case the scheduler goes on with the state it has reached.
\<close>

definition handle :: "nat \<Rightarrow> real \<Rightarrow> input \<Rightarrow> sched \<Rightarrow> sched option" where
  "handle n now inp s =
     (let s0 = s\<lparr>clock := now\<rparr>
      in map_option snd
           (case inp of
              Submission msg \<Rightarrow> dispatch_submission n msg s0
            | Result msg \<Rightarrow> dispatch_result n msg s0
            | Registration uid \<Rightarrow> log_errors (register_engine n uid s0)
            | Unregistration uid \<Rightarrow> log_errors (Some (unregister_engine uid s0))
            | Stranded_fired uid \<Rightarrow> log_errors (handle_stranded_tasks n uid s0)
            | Timeout_fired r tid \<Rightarrow> log_errors (job_timeout n r tid s0)))"

text \<open>A scheduler that has just started.\<close>

definition init :: "int \<Rightarrow> (nat \<Rightarrow> int list \<Rightarrow> int option) \<Rightarrow> sched" where
  "init h sch =
     \<lparr>hwm = h, scheme = sch, scheme_calls = 0, clock = 0,
      heap = (\<lambda>r. \<lparr>msg_id = [], raw_msg = [], idents = [], targets = {}, after = MET,
                   follow = MET, timeout = None, removed = True, timestamp = 0,
                   timeout_id = 0, blacklist = {}\<rparr>),
      next_ref = 0, queue = [], queue_map = [], graph = Map.empty, retries = Map.empty,
      pending = Map.empty, completed = Map.empty, failed = Map.empty,
      destinations = Map.empty, targets_s = [], loads = [], all_completed = {},
      all_failed = {}, all_done = {}, all_ids = {}, outbox = [], timers = [], logs = []\<rparr>"

text \<open>A run: the inputs in order, each with its time; \<open>None\<close> when the fuel does not
  suffice for some handler.\<close>

fun run :: "nat \<Rightarrow> (real \<times> input) list \<Rightarrow> sched \<Rightarrow> sched option" where
  "run n [] s = Some s"
| "run n ((now, inp) # rest) s =
     (case handle n now inp s of None \<Rightarrow> None | Some s1 \<Rightarrow> run n rest s1)"


section \<open>Relations and measures on states\<close>

text \<open>What no step of the recursive methods changes in a job, and what it may change: the
  targets may lose the blacklisted engines, and a job may become a tombstone.\<close>

definition same_job :: "job \<Rightarrow> job \<Rightarrow> bool" where
  "same_job j j' \<longleftrightarrow>
     msg_id j' = msg_id j \<and> raw_msg j' = raw_msg j \<and> idents j' = idents j \<and>
     after j' = after j \<and> follow j' = follow j \<and> timeout j' = timeout j \<and>
     timestamp j' = timestamp j \<and> timeout_id j' = timeout_id j \<and>
     blacklist j' = blacklist j \<and>
     (targets j' = targets j \<or> targets j' = targets j - blacklist j) \<and>
     (removed j \<longrightarrow> removed j')"

text \<open>What no step of the recursive methods changes in the scheduler, and what only grows.\<close>

definition evolves :: "sched \<Rightarrow> sched \<Rightarrow> bool" where
  "evolves s s' \<longleftrightarrow>
     hwm s' = hwm s \<and> scheme s' = scheme s \<and> clock s' = clock s \<and>
     next_ref s' = next_ref s \<and> retries s' = retries s \<and> completed s' = completed s \<and>
     failed s' = failed s \<and> destinations s' = destinations s \<and>
     all_completed s' = all_completed s \<and> all_ids s' = all_ids s \<and> timers s' = timers s \<and>
     all_failed s \<subseteq> all_failed s' \<and> all_done s \<subseteq> all_done s' \<and>
     (\<exists>ev. outbox s' = outbox s @ ev) \<and>
     (\<forall>r. same_job (heap s r) (heap s' r))"

text \<open>The number of entries of \<open>queue_map\<close>, and the jobs that are not tombstones.\<close>

definition qlen :: "sched \<Rightarrow> nat" where
  "qlen s = length (queue_map s)"

definition alive :: "sched \<Rightarrow> job_ref set" where
  "alive s = {r. \<not> removed (heap s r)}"

text \<open>The msg_ids that \<open>queue_map\<close> holds.\<close>

definition waiting_ids :: "sched \<Rightarrow> msg_id set" where
  "waiting_ids s = fst ` set (queue_map s)"

text \<open>The measure: live jobs, waiting entries, jobs left in the loop.\<close>

definition loop_measure :: "bool \<times> job_ref list \<times> sched \<Rightarrow> nat \<times> nat \<times> nat" where
  "loop_measure x =
     (case x of (u, js, s) \<Rightarrow> (card (alive s), qlen s, length (if u then queue s else js)))"

definition loop_rel :: "((bool \<times> job_ref list \<times> sched) \<times> (bool \<times> job_ref list \<times> sched)) set" where
  "loop_rel = inv_image (less_than <*lex*> less_than <*lex*> less_than) loop_measure"

text \<open>The dispatches among the events: the engine and the job.\<close>

fun sent :: "event \<Rightarrow> (engine_id \<times> job_ref) list" where
  "sent (To_engine e r) = [(e, r)]"
| "sent ev = []"

text \<open>The dispatches between a state and a later one, in order.\<close>

definition dispatched :: "sched \<Rightarrow> sched \<Rightarrow> (engine_id \<times> job_ref) list" where
  "dispatched s s' = concat (map sent (drop (length (outbox s)) (outbox s')))"

text \<open>No dispatch between the two states went to an engine in the blacklist of the job
  it sent; the blacklist is read in both states.\<close>

definition respects_blacklist :: "sched \<Rightarrow> sched \<Rightarrow> bool" where
  "respects_blacklist s s' \<longleftrightarrow>
     list_all (\<lambda>(e, r). e \<notin> blacklist (heap s r) \<and> e \<notin> blacklist (heap s' r)) (dispatched s s')"

text \<open>The frame of the recursive methods together with the blacklists being respected.\<close>

definition careful :: "sched \<Rightarrow> sched \<Rightarrow> bool" where
  "careful s s' \<longleftrightarrow> evolves s s' \<and> respects_blacklist s s'"

section \<open>Scenarios\<close>

text \<open>A task without placement constraints, retries or timeout.\<close>

definition task :: "msg_id \<Rightarrow> dep_md option \<Rightarrow> submission" where
  "task m aft =
     \<lparr>sub_raw = [''client'', m], sub_idents = [''client''], sub_msg_id = m, sub_targets = [],
      sub_retries = 0, sub_after = aft, sub_follow = None, sub_timeout = None\<rparr>"

text \<open>Engine E registers and gets task R; tasks A and B wait for R; then engine F
  registers, which rescans the whole queue.\<close>

definition two_waiting :: "(real \<times> input) list" where
  "two_waiting =
     [(1, Registration ''E''),
      (2, Submission (Some (task ''R'' None))),
      (3, Submission (Some (task ''A'' (Some (Md_ids [''R'']))))),
      (4, Submission (Some (task ''B'' (Some (Md_ids [''R''])))))]"

text \<open>A scheduler in which task R has completed.\<close>

definition r_completed :: sched where
  "r_completed = (init 1 (\<lambda>c. leastload))\<lparr>all_completed := {''R''}, all_done := {''R''}, all_ids := {''R''}\<rparr>"

text \<open>A scheduler without a high-water mark.\<close>

definition no_hwm :: sched where
  "no_hwm = init 0 (\<lambda>c. leastload)"

text \<open>The msg_ids of the tasks pending on an engine.\<close>

definition pending_ids :: "engine_id \<Rightarrow> sched \<Rightarrow> msg_id list option" where
  "pending_ids e s = map_option (map fst) (pending s e)"

text \<open>A job J that waits for R, as \<open>dispatch_submission\<close> leaves it when R is not
  known to have finished.\<close>

definition j_waiting :: sched where
  "j_waiting = save_unmet 0 (new_job (task ''J'' (Some (Md_ids [''R'']))) r_completed)"

text \<open>The error replies sent to clients, in order: the exception and the msg_id.\<close>

fun reply_of :: "event \<Rightarrow> (ename \<times> msg_id) list" where
  "reply_of (Reply_error why m ids) = [(why, m)]"
| "reply_of e = []"

definition error_replies :: "sched \<Rightarrow> (ename \<times> msg_id) list" where
  "error_replies s = concat (map reply_of (outbox s))"

text \<open>The reply of engine \<open>e\<close> to task \<open>m\<close>, which succeeded.\<close>

definition ok_reply :: "engine_id \<Rightarrow> msg_id \<Rightarrow> result_msg" where
  "ok_reply e m =
     \<lparr>res_raw = [e, ''client'', m], res_idents = [e, ''client''], res_msg_id = m,
      res_dependencies_met = True, res_status = ''ok''\<rparr>"

text \<open>Engine E registers and runs R. Task J, for engine E alone and with one retry, waits
  for R and is sent to E when R succeeds. E unregisters while J is running there; then
  engine F registers, which rescans the whole queue.\<close>

definition failed_twice :: "(real \<times> input) list" where
  "failed_twice =
     [(1, Registration ''E''),
      (2, Submission (Some (task ''R'' None))),
      (3, Submission (Some ((task ''J'' (Some (Md_ids [''R''])))
            \<lparr>sub_targets := [''E''], sub_retries := 1\<rparr>))),
      (4, Result (Some (ok_reply ''E'' ''R''))),
      (5, Unregistration ''E''),
      (6, Registration ''F'')]"

text \<open>Engines E and F are idle; job J has no constraints and was refused by E.\<close>

definition e_refused :: sched where
  "e_refused =
     upd_job 0 (\<lambda>j. j\<lparr>blacklist := {''E''}\<rparr>)
       (new_job (task ''J'' None)
          (no_hwm\<lparr>targets_s := [''E'', ''F''], loads := [0, 0],
             pending := [''E'' \<mapsto> [], ''F'' \<mapsto> []],
             completed := [''E'' \<mapsto> {}, ''F'' \<mapsto> {}],
             failed := [''E'' \<mapsto> {}, ''F'' \<mapsto> {}]\<rparr>))"


section \<open>Unfolding the methods\<close>

lemma fail_unreachable_0: "fail_unreachable 0 = fail_unreachable_body (\<lambda>d b s. None)"
  by (simp add: fail_unreachable_def)

lemma fail_unreachable_Suc: "fail_unreachable (Suc k) = fail_unreachable_body (update_graph k)"
  by (simp add: fail_unreachable_def update_graph_def split: prod.splits)

lemma update_graph_0: "update_graph 0 = update_graph_body (\<lambda>u js tr s. None)"
  by (simp add: update_graph_def)

lemma update_graph_Suc: "update_graph (Suc k) = update_graph_body (ug_loop k)"
  by (simp add: update_graph_def ug_loop_def split: prod.splits)

lemma ug_loop_0:
  "ug_loop 0 = ug_loop_body (\<lambda>m w s. None) (\<lambda>r s. None) (\<lambda>u js tr s. None)"
  by (simp add: ug_loop_def)

lemma ug_loop_Suc:
  "ug_loop (Suc k) = ug_loop_body (fail_unreachable k) (maybe_run k) (ug_loop k)"
  by (simp add: ug_loop_def fail_unreachable_def maybe_run_def split: prod.splits)

lemma maybe_run_0: "maybe_run 0 = maybe_run_body (\<lambda>m w s. None)"
  by (simp add: maybe_run_def)

lemma maybe_run_Suc: "maybe_run (Suc k) = maybe_run_body (fail_unreachable k)"
  by (simp add: maybe_run_def fail_unreachable_def split: prod.splits)

text \<open>Induction over the fuel for a property of each of the four methods.\<close>

lemma methods_induct:
  assumes "PG (\<lambda>d b s. None)" and "PL (\<lambda>u js tr s. None)"
    and "PF (\<lambda>m w s. None)" and "PM (\<lambda>r s. None)"
    and "\<And>ug. PG ug \<Longrightarrow> PF (fail_unreachable_body ug)"
    and "\<And>lp. PL lp \<Longrightarrow> PG (update_graph_body lp)"
    and "\<And>fu mr lp. PF fu \<Longrightarrow> PM mr \<Longrightarrow> PL lp \<Longrightarrow> PL (ug_loop_body fu mr lp)"
    and "\<And>fu. PF fu \<Longrightarrow> PM (maybe_run_body fu)"
  shows "PF (fail_unreachable n) \<and> PG (update_graph n) \<and> PL (ug_loop n) \<and> PM (maybe_run n)"
proof (induction n)
  case 0
  show ?case
    using assms by (simp add: fail_unreachable_0 update_graph_0 ug_loop_0 maybe_run_0)
next
  case (Suc k)
  then show ?case
    using assms
    by (simp add: fail_unreachable_Suc update_graph_Suc ug_loop_Suc maybe_run_Suc)
qed

section \<open>Case analysis of the four bodies\<close>

lemma heap_log_msg [simp]: "heap (log_msg e s) = heap s" by (simp add: log_msg_def)

lemma fail_unreachable_body_cases [consumes 1, case_names not_waiting raised failed]:
  assumes "fail_unreachable_body ug m why s = Some (res, s')"
  obtains
    "map_of (queue_map s) m = None" "res = Inr ()"
      "s' = log_msg (Log_error ''task already failed!'') s"
  | r e where "map_of (queue_map s) m = Some r" "fail_job r m why s = (Inl e, s')" "res = Inl e"
  | r s1 where "map_of (queue_map s) m = Some r" "fail_job r m why s = (Inr (), s1)"
      "ug (Some m) False s1 = Some (res, s')"
  using assms unfolding fail_unreachable_body_def
  by (auto split: option.splits sum.splits prod.splits)

lemma update_graph_body_cases
  [consumes 1, case_names full_raised full lookup_raised part_raised part]:
  assumes "update_graph_body lp d b s = Some (res, s')"
  obtains
    ids s1 e where "graph_pop d s = (ids, s1)" "full_scan d s1"
      "lp True [] [] s1 = Some (Inl e, s')" "res = Inl e"
  | ids s1 tr s2 where "graph_pop d s = (ids, s1)" "full_scan d s1"
      "lp True [] [] s1 = Some (Inr tr, s2)" "res = Inr ()"
      "s' = s2\<lparr>queue := rev tr @ queue s2\<rparr>"
  | ids e where "graph_pop d s = (ids, s')" "\<not> full_scan d s'"
      "lookup_jobs (queue_map s') ids = Inl e" "res = Inl e"
  | ids s1 refs e where "graph_pop d s = (ids, s1)" "\<not> full_scan d s1"
      "lookup_jobs (queue_map s1) ids = Inr refs"
      "lp False (sort_key (\<lambda>r. timestamp (heap s1 r)) refs) [] s1 = Some (Inl e, s')"
      "res = Inl e"
  | ids s1 refs tr where "graph_pop d s = (ids, s1)" "\<not> full_scan d s1"
      "lookup_jobs (queue_map s1) ids = Inr refs"
      "lp False (sort_key (\<lambda>r. timestamp (heap s1 r)) refs) [] s1 = Some (Inr tr, s')"
      "res = Inr ()"
  using assms unfolding update_graph_body_def
  by (auto split: option.splits sum.splits prod.splits if_splits)

lemma ug_loop_body_cases
  [consumes 1, case_names finished skip fail_raised fail_next run_raised ran_raised ran_avail_raised
     ran_break ran_next wait_next unmet_next]:
  assumes "ug_loop_body fu mr lp u js tr s = Some (res, s')"
  obtains
    "pop_job u js s = None" "res = Inr tr" "s' = s"
  | r js1 s1 where "pop_job u js s = Some (r, js1, s1)" "removed (heap s1 r)"
      "lp u js1 tr s1 = Some (res, s')"
  | r js1 s1 e where "pop_job u js s = Some (r, js1, s1)" "\<not> removed (heap s1 r)"
      "unreachable (after (heap s1 r)) (all_completed s1) (all_failed s1)
        \<or> unreachable (follow (heap s1 r)) (all_completed s1) (all_failed s1)"
      "fu (msg_id (heap s1 r)) ImpossibleDependency s1 = Some (Inl e, s')" "res = Inl e"
  | r js1 s1 s2 where "pop_job u js s = Some (r, js1, s1)" "\<not> removed (heap s1 r)"
      "unreachable (after (heap s1 r)) (all_completed s1) (all_failed s1)
        \<or> unreachable (follow (heap s1 r)) (all_completed s1) (all_failed s1)"
      "fu (msg_id (heap s1 r)) ImpossibleDependency s1 = Some (Inr (), s2)"
      "lp u js1 tr s2 = Some (res, s')"
  | r js1 s1 e where "pop_job u js s = Some (r, js1, s1)" "\<not> removed (heap s1 r)"
      "\<not> (unreachable (after (heap s1 r)) (all_completed s1) (all_failed s1)
          \<or> unreachable (follow (heap s1 r)) (all_completed s1) (all_failed s1))"
      "check (after (heap s1 r)) (all_completed s1) (all_failed s1)"
      "mr r s1 = Some (Inl e, s')" "res = Inl e"
  | r js1 s1 s2 e where "pop_job u js s = Some (r, js1, s1)" "\<not> removed (heap s1 r)"
      "\<not> (unreachable (after (heap s1 r)) (all_completed s1) (all_failed s1)
          \<or> unreachable (follow (heap s1 r)) (all_completed s1) (all_failed s1))"
      "check (after (heap s1 r)) (all_completed s1) (all_failed s1)"
      "mr r s1 = Some (Inr True, s2)" "after_run r s2 = (Inl e, s')" "res = Inl e"
  | r js1 s1 s2 e where "pop_job u js s = Some (r, js1, s1)" "\<not> removed (heap s1 r)"
      "\<not> (unreachable (after (heap s1 r)) (all_completed s1) (all_failed s1)
          \<or> unreachable (follow (heap s1 r)) (all_completed s1) (all_failed s1))"
      "check (after (heap s1 r)) (all_completed s1) (all_failed s1)"
      "mr r s1 = Some (Inr True, s2)" "after_run r s2 = (Inr (), s')"
      "available_engines s' = Inl e" "res = Inl e"
  | r js1 s1 s2 where "pop_job u js s = Some (r, js1, s1)" "\<not> removed (heap s1 r)"
      "\<not> (unreachable (after (heap s1 r)) (all_completed s1) (all_failed s1)
          \<or> unreachable (follow (heap s1 r)) (all_completed s1) (all_failed s1))"
      "check (after (heap s1 r)) (all_completed s1) (all_failed s1)"
      "mr r s1 = Some (Inr True, s2)" "after_run r s2 = (Inr (), s')"
      "available_engines s' = Inr []" "res = Inr tr"
  | r js1 s1 s2 s3 av where "pop_job u js s = Some (r, js1, s1)" "\<not> removed (heap s1 r)"
      "\<not> (unreachable (after (heap s1 r)) (all_completed s1) (all_failed s1)
          \<or> unreachable (follow (heap s1 r)) (all_completed s1) (all_failed s1))"
      "check (after (heap s1 r)) (all_completed s1) (all_failed s1)"
      "mr r s1 = Some (Inr True, s2)" "after_run r s2 = (Inr (), s3)"
      "available_engines s3 = Inr av" "av \<noteq> []" "lp u js1 tr s3 = Some (res, s')"
  | r js1 s1 s2 where "pop_job u js s = Some (r, js1, s1)" "\<not> removed (heap s1 r)"
      "\<not> (unreachable (after (heap s1 r)) (all_completed s1) (all_failed s1)
          \<or> unreachable (follow (heap s1 r)) (all_completed s1) (all_failed s1))"
      "check (after (heap s1 r)) (all_completed s1) (all_failed s1)"
      "mr r s1 = Some (Inr False, s2)"
      "lp u js1 (if u then tr @ [r] else tr) s2 = Some (res, s')"
  | r js1 s1 where "pop_job u js s = Some (r, js1, s1)" "\<not> removed (heap s1 r)"
      "\<not> (unreachable (after (heap s1 r)) (all_completed s1) (all_failed s1)
          \<or> unreachable (follow (heap s1 r)) (all_completed s1) (all_failed s1))"
      "\<not> check (after (heap s1 r)) (all_completed s1) (all_failed s1)"
      "lp u js1 (if u then tr @ [r] else tr) s1 = Some (res, s')"
proof (cases "pop_job u js s")
  case None
  from this that(1) assms show ?thesis by (simp add: ug_loop_body_def)
next
  case (Some x)
  then obtain r js1 s1 where pop: "pop_job u js s = Some (r, js1, s1)" by (cases x) auto
  show ?thesis
  proof (cases "removed (heap s1 r)")
    case True
    from this pop that(2) assms show ?thesis by (simp add: ug_loop_body_def)
  next
    case nrem: False
    show ?thesis
    proof (cases "unreachable (after (heap s1 r)) (all_completed s1) (all_failed s1)
        \<or> unreachable (follow (heap s1 r)) (all_completed s1) (all_failed s1)")
      case True
      from this pop nrem assms obtain x2 s2 where
        fu: "fu (msg_id (heap s1 r)) ImpossibleDependency s1 = Some (x2, s2)"
        by (auto simp: ug_loop_body_def split: option.splits)
      show ?thesis
      proof (cases x2)
        case (Inl e)
        from this pop nrem True fu that(3) assms show ?thesis by (auto simp: ug_loop_body_def)
      next
        case (Inr v)
        from this pop nrem True fu that(4) assms show ?thesis by (auto simp: ug_loop_body_def)
      qed
    next
      case nunr: False
      show ?thesis
      proof (cases "check (after (heap s1 r)) (all_completed s1) (all_failed s1)")
        case False
        from this pop nrem nunr that(11) assms show ?thesis by (auto simp: ug_loop_body_def)
      next
        case chk: True
        from this pop nrem nunr assms obtain x2 s2 where mr: "mr r s1 = Some (x2, s2)"
          by (auto simp: ug_loop_body_def split: option.splits)
        show ?thesis
        proof (cases x2)
          case (Inl e)
          from this pop nrem nunr chk mr that(5) assms show ?thesis by (auto simp: ug_loop_body_def)
        next
          case (Inr b)
          show ?thesis
          proof (cases b)
            case False
            from this Inr pop nrem nunr chk mr that(10) assms show ?thesis
              by (auto simp: ug_loop_body_def)
          next
            case True
            obtain x3 s3 where ar: "after_run r s2 = (x3, s3)" by (cases "after_run r s2")
            show ?thesis
            proof (cases x3)
              case (Inl e)
              from this True Inr ar pop nrem nunr chk mr that(6) assms show ?thesis
                by (auto simp: ug_loop_body_def)
            next
              case r3: (Inr v)
              show ?thesis
              proof (cases "available_engines s3")
                case (Inl e)
                from this r3 True Inr ar pop nrem nunr chk mr assms
                have "res = Inl e" "s' = s3" by (auto simp: ug_loop_body_def)
                moreover have "mr r s1 = Some (Inr True, s2)" "after_run r s2 = (Inr (), s3)"
                  using mr Inr True ar r3 by auto
                ultimately show ?thesis using that(7) pop nrem nunr chk Inl by blast
              next
                case av: (Inr av)
                show ?thesis
                proof (cases "av = []")
                  case True
                  from this av r3 \<open>b\<close> Inr ar pop nrem nunr chk mr that(8) assms show ?thesis
                    by (auto simp: ug_loop_body_def)
                next
                  case False
                  from this av r3 \<open>b\<close> Inr ar pop nrem nunr chk mr that(9) assms show ?thesis
                    by (auto simp: ug_loop_body_def)
                qed
              qed
            qed
          qed
        qed
      qed
    qed
  qed
qed


lemma maybe_run_body_cases
  [consumes 1, case_names avail_raised no_engine filter_raised dests_raised follow_fail
     targets_fail targets_wait wait placed placed_free]:
  assumes "maybe_run_body fu r s = Some (res, s')"
  obtains
    s0 e where "s0 = log_msg (Log_debug ''Attempting to assign task'') s"
      "available_engines s0 = Inl e" "res = Inl e" "s' = s0"
  | s0 where "s0 = log_msg (Log_debug ''Attempting to assign task'') s"
      "available_engines s0 = Inr []" "res = Inr False" "s' = s0"
  | s0 av e where "s0 = log_msg (Log_debug ''Attempting to assign task'') s"
      "available_engines s0 = Inr av" "av \<noteq> []"
      "dep_ids (follow (heap s r)) \<noteq> [] \<or> targets (heap s r) \<noteq> {}
         \<or> blacklist (heap s r) \<noteq> {} \<or> hwm s0 \<noteq> 0"
      "filter_can_run s0 (heap s r) av = Inl e" "res = Inl e" "s' = s0"
  | s0 av e where "s0 = log_msg (Log_debug ''Attempting to assign task'') s"
      "available_engines s0 = Inr av" "av \<noteq> []"
      "dep_ids (follow (heap s r)) \<noteq> [] \<or> targets (heap s r) \<noteq> {}
         \<or> blacklist (heap s r) \<noteq> {} \<or> hwm s0 \<noteq> 0"
      "filter_can_run s0 (heap s r) av = Inr []" "dep_all (follow (heap s r))"
      "follow_dests s0 (heap s r) = Inl e" "res = Inl e" "s' = s0"
  | s0 av dests fres where "s0 = log_msg (Log_debug ''Attempting to assign task'') s"
      "available_engines s0 = Inr av" "av \<noteq> []"
      "dep_ids (follow (heap s r)) \<noteq> [] \<or> targets (heap s r) \<noteq> {}
         \<or> blacklist (heap s r) \<noteq> {} \<or> hwm s0 \<noteq> 0"
      "filter_can_run s0 (heap s r) av = Inr []" "dep_all (follow (heap s r))"
      "follow_dests s0 (heap s r) = Inr dests" "card dests > 1"
      "fu (msg_id (heap s r)) ImpossibleDependency (queue_map_set (msg_id (heap s r)) r s0)
         = Some (fres, s')"
      "res = (case fres of Inl e \<Rightarrow> Inl e | Inr v \<Rightarrow> Inr False)"
  | s0 av s1 fres where "s0 = log_msg (Log_debug ''Attempting to assign task'') s"
      "available_engines s0 = Inr av" "av \<noteq> []"
      "dep_ids (follow (heap s r)) \<noteq> [] \<or> targets (heap s r) \<noteq> {}
         \<or> blacklist (heap s r) \<noteq> {} \<or> hwm s0 \<noteq> 0"
      "filter_can_run s0 (heap s r) av = Inr []"
      "\<not> dep_all (follow (heap s r)) \<or>
         (\<exists>dests. follow_dests s0 (heap s r) = Inr dests \<and> \<not> card dests > 1)"
      "targets (heap s r) \<noteq> {}" "s1 = prune_targets r s0"
      "targets (heap s1 r) = {} \<or> targets (heap s1 r) \<inter> set (targets_s s1) = {}"
      "fu (msg_id (heap s r)) ImpossibleDependency (queue_map_set (msg_id (heap s r)) r s1)
         = Some (fres, s')"
      "res = (case fres of Inl e \<Rightarrow> Inl e | Inr v \<Rightarrow> Inr False)"
  | s0 av s1 where "s0 = log_msg (Log_debug ''Attempting to assign task'') s"
      "available_engines s0 = Inr av" "av \<noteq> []"
      "dep_ids (follow (heap s r)) \<noteq> [] \<or> targets (heap s r) \<noteq> {}
         \<or> blacklist (heap s r) \<noteq> {} \<or> hwm s0 \<noteq> 0"
      "filter_can_run s0 (heap s r) av = Inr []"
      "\<not> dep_all (follow (heap s r)) \<or>
         (\<exists>dests. follow_dests s0 (heap s r) = Inr dests \<and> \<not> card dests > 1)"
      "targets (heap s r) \<noteq> {}" "s1 = prune_targets r s0"
      "targets (heap s1 r) \<noteq> {}" "targets (heap s1 r) \<inter> set (targets_s s1) \<noteq> {}"
      "res = Inr False" "s' = s1"
  | s0 av where "s0 = log_msg (Log_debug ''Attempting to assign task'') s"
      "available_engines s0 = Inr av" "av \<noteq> []"
      "dep_ids (follow (heap s r)) \<noteq> [] \<or> targets (heap s r) \<noteq> {}
         \<or> blacklist (heap s r) \<noteq> {} \<or> hwm s0 \<noteq> 0"
      "filter_can_run s0 (heap s r) av = Inr []"
      "\<not> dep_all (follow (heap s r)) \<or>
         (\<exists>dests. follow_dests s0 (heap s r) = Inr dests \<and> \<not> card dests > 1)"
      "targets (heap s r) = {}" "res = Inr False" "s' = s0"
  | s0 av indices sres where "s0 = log_msg (Log_debug ''Attempting to assign task'') s"
      "available_engines s0 = Inr av" "av \<noteq> []"
      "dep_ids (follow (heap s r)) \<noteq> [] \<or> targets (heap s r) \<noteq> {}
         \<or> blacklist (heap s r) \<noteq> {} \<or> hwm s0 \<noteq> 0"
      "filter_can_run s0 (heap s r) av = Inr indices" "indices \<noteq> []"
      "submit_task r (Some indices) s0 = (sres, s')"
      "res = (case sres of Inl e \<Rightarrow> Inl e | Inr v \<Rightarrow> Inr True)"
  | s0 av sres where "s0 = log_msg (Log_debug ''Attempting to assign task'') s"
      "available_engines s0 = Inr av" "av \<noteq> []"
      "dep_ids (follow (heap s r)) = []" "targets (heap s r) = {}"
      "blacklist (heap s r) = {}" "hwm s0 = 0"
      "submit_task r None s0 = (sres, s')"
      "res = (case sres of Inl e \<Rightarrow> Inl e | Inr v \<Rightarrow> Inr True)"
proof -
  define s0 where s0: "s0 = log_msg (Log_debug ''Attempting to assign task'') s"
  define job where job: "job = heap s r"
  note defs = maybe_run_body_def Let_def s0[symmetric] job[symmetric]
  show ?thesis
  proof (cases "available_engines s0")
    case (Inl e)
    from this s0 assms have "res = Inl e" "s' = s0" by (simp_all add: maybe_run_body_def Let_def)
    with that(1) s0 Inl show ?thesis by blast
  next
    case (Inr av)
    show ?thesis
    proof (cases "av = []")
      case True
      from this Inr s0 assms have "res = Inr False" "s' = s0"
        by (simp_all add: maybe_run_body_def Let_def)
      with that(2) s0 Inr True show ?thesis by blast
    next
      case av: False
      show ?thesis
      proof (cases "dep_ids (follow job) \<noteq> [] \<or> targets job \<noteq> {} \<or> blacklist job \<noteq> {}
                    \<or> hwm s0 \<noteq> 0")
        case False
        obtain sres s2 where st: "submit_task r None s0 = (sres, s2)"
          by (cases "submit_task r None s0")
        from False st av Inr s0 job assms
        have "res = (case sres of Inl e \<Rightarrow> Inl e | Inr v \<Rightarrow> Inr True)" "s' = s2"
          by (simp_all add: maybe_run_body_def Let_def split: sum.splits)
        with that(10) [of s0 av sres] s0 Inr av False st job show ?thesis by blast
      next
        case con: True
        show ?thesis
        proof (cases "filter_can_run s0 job av")
          case (Inl e)
          from this con av Inr s0 job assms have "res = Inl e" "s' = s0"
            by (simp_all add: maybe_run_body_def Let_def)
          with con that(3) [of s0 av e] s0 Inr av Inl job show ?thesis by blast
        next
          case f: (Inr indices)
          show ?thesis
          proof (cases "indices = []")
            case False
            obtain sres s2 where st: "submit_task r (Some indices) s0 = (sres, s2)"
              by (cases "submit_task r (Some indices) s0")
            from False st f con av Inr s0 job assms
            have "res = (case sres of Inl e \<Rightarrow> Inl e | Inr v \<Rightarrow> Inr True)" "s' = s2"
              by (simp_all add: maybe_run_body_def Let_def split: sum.splits)
            with con that(9) [of s0 av indices sres] s0 Inr av False st job f show ?thesis by blast
          next
            case emp: True
            show ?thesis
            proof (cases "if dep_all (follow job) then follow_dests s0 job else Inr {}")
              case (Inl e)
              then have da: "dep_all (follow job)" "follow_dests s0 job = Inl e"
                by (auto split: if_splits)
              from da emp f con av Inr s0 job assms have "res = Inl e" "s' = s0"
                by (simp_all add: maybe_run_body_def Let_def)
              with con that(4) [of s0 av e] s0 Inr av f emp job da show ?thesis by blast
            next
              case d: (Inr dests)
              show ?thesis
              proof (cases "card dests > 1")
                case True
                with d have da: "dep_all (follow job)" "follow_dests s0 job = Inr dests"
                  by (auto split: if_splits)
                from True da emp f con av Inr s0 job assms
                have "(case fu (msg_id job) ImpossibleDependency
                              (queue_map_set (msg_id job) r s0) of
                         None \<Rightarrow> None
                       | Some (Inl e, s2) \<Rightarrow> Some (Inl e, s2)
                       | Some (Inr u, s2) \<Rightarrow> Some (Inr False, s2)) = Some (res, s')"
                  by (simp add: maybe_run_body_def Let_def)
                then obtain fres where
                  "fu (msg_id job) ImpossibleDependency (queue_map_set (msg_id job) r s0)
                     = Some (fres, s')"
                  "res = (case fres of Inl e \<Rightarrow> Inl e | Inr v \<Rightarrow> Inr False)"
                  by (auto split: option.splits sum.splits)
                with con that(5) [of s0 av dests fres] s0 Inr av f emp job da True
                show ?thesis by blast
              next
                case small: False
                with d have da: "\<not> dep_all (follow job) \<or>
                    (\<exists>dests. follow_dests s0 job = Inr dests \<and> \<not> card dests > 1)"
                  by (auto split: if_splits)
                show ?thesis
                proof (cases "targets job = {}")
                  case True
                  from True small d emp f con av Inr s0 job assms
                  have "res = Inr False" "s' = s0"
                    by (cases "dep_all (follow job)"; simp add: maybe_run_body_def Let_def)+
                  with con that(8) [of s0 av] s0 Inr av f emp job da True show ?thesis by blast
                next
                  case tg: False
                  define s1 where s1: "s1 = prune_targets r s0"
                  show ?thesis
                  proof (cases "targets (heap s1 r) = {}
                      \<or> targets (heap s1 r) \<inter> set (targets_s s1) = {}")
                    case False
                    from False s1 tg small d emp f con av Inr s0 job assms
                    have "res = Inr False" "s' = s1"
                      by (cases "dep_all (follow job)"; simp add: maybe_run_body_def Let_def)+
                    with con that(7) [of s0 av s1] s0 Inr av f emp job da tg s1 False
                    show ?thesis by blast
                  next
                    case True
                    from True s1 tg small d emp f con av Inr s0 job assms
                    have "(case fu (msg_id job) ImpossibleDependency
                                  (queue_map_set (msg_id job) r s1) of
                             None \<Rightarrow> None
                           | Some (Inl e, s2) \<Rightarrow> Some (Inl e, s2)
                           | Some (Inr u, s2) \<Rightarrow> Some (Inr False, s2)) = Some (res, s')"
                      by (cases "dep_all (follow job)"; simp add: maybe_run_body_def Let_def)
                    then obtain fres where
                      "fu (msg_id job) ImpossibleDependency (queue_map_set (msg_id job) r s1)
                         = Some (fres, s')"
                      "res = (case fres of Inl e \<Rightarrow> Inl e | Inr v \<Rightarrow> Inr False)"
                      by (auto split: option.splits sum.splits)
                    with con that(6) [of s0 av s1 fres] s0 Inr av f emp job da tg s1 True
                    show ?thesis by blast
                  qed
                qed
              qed
            qed
          qed
        qed
      qed
    qed
  qed
qed


text \<open>A reflexive and transitive relation between states that every step of the four
  methods respects relates the state a method finds to the state it leaves.\<close>

lemma methods_rel:
  assumes refl: "\<And>s. R s s"
    and trans: "\<And>s t u. R s t \<Longrightarrow> R t u \<Longrightarrow> R s u"
    and lift: "\<And>r s t. R s t \<Longrightarrow> RM r s t"
    and pre: "\<And>r s t u. R s t \<Longrightarrow> heap t r = heap s r \<Longrightarrow> RM r t u \<Longrightarrow> RM r s u"
    and drop: "\<And>r s t. RM r s t \<Longrightarrow> \<not> removed (heap s r) \<Longrightarrow> R s t"
    and log: "\<And>e s. R s (log_msg e s)"
    and fail: "\<And>r m why s res s'. map_of (queue_map s) m = Some r \<Longrightarrow>
        fail_job r m why s = (res, s') \<Longrightarrow> R s s'"
    and gpop: "\<And>d s ids s'. graph_pop d s = (ids, s') \<Longrightarrow> R s s'"
    and restore: "\<And>tr s. R s (s\<lparr>queue := rev tr @ queue s\<rparr>)"
    and pop: "\<And>u js s r js1 s1. pop_job u js s = Some (r, js1, s1) \<Longrightarrow> R s s1"
    and arun: "\<And>r s res s'. after_run r s = (res, s') \<Longrightarrow> R s s'"
    and ins: "\<And>r s. R s (queue_map_set (msg_id (heap s r)) r s)"
    and tgt: "\<And>r s. R s (prune_targets r s)"
    and sub1: "\<And>r s av indices res s'. available_engines s = Inr av \<Longrightarrow>
        filter_can_run s (heap s r) av = Inr indices \<Longrightarrow> indices \<noteq> [] \<Longrightarrow>
        submit_task r (Some indices) s = (res, s') \<Longrightarrow> RM r s s'"
    and sub2: "\<And>r s av res s'. available_engines s = Inr av \<Longrightarrow> av \<noteq> [] \<Longrightarrow>
        dep_ids (follow (heap s r)) = [] \<Longrightarrow> targets (heap s r) = {} \<Longrightarrow>
        blacklist (heap s r) = {} \<Longrightarrow> hwm s = 0 \<Longrightarrow>
        submit_task r None s = (res, s') \<Longrightarrow> RM r s s'"
  shows "(\<forall>m w s res s'. fail_unreachable n m w s = Some (res, s') \<longrightarrow> R s s')
       \<and> (\<forall>d b s res s'. update_graph n d b s = Some (res, s') \<longrightarrow> R s s')
       \<and> (\<forall>u js tr s res s'. ug_loop n u js tr s = Some (res, s') \<longrightarrow> R s s')
       \<and> (\<forall>r s res s'. maybe_run n r s = Some (res, s') \<longrightarrow> RM r s s')"
proof (rule methods_induct)
  fix ug :: update_graph_t
  assume ug: "\<forall>d b s res s'. ug d b s = Some (res, s') \<longrightarrow> R s s'"
  show "\<forall>m w s res s'. fail_unreachable_body ug m w s = Some (res, s') \<longrightarrow> R s s'"
  proof (intro allI impI)
    fix m w s res s'
    assume "fail_unreachable_body ug m w s = Some (res, s')"
    then show "R s s'"
    proof (cases rule: fail_unreachable_body_cases)
      case not_waiting
      then show ?thesis by (simp add: log)
    next
      case (raised r e)
      then show ?thesis using fail by blast
    next
      case (failed r s1)
      then have "R s s1" "R s1 s'" using fail ug by blast+
      then show ?thesis using trans by blast
    qed
  qed
next
  fix lp :: ug_loop_t
  assume lp: "\<forall>u js tr s res s'. lp u js tr s = Some (res, s') \<longrightarrow> R s s'"
  show "\<forall>d b s res s'. update_graph_body lp d b s = Some (res, s') \<longrightarrow> R s s'"
  proof (intro allI impI)
    fix d b s res s'
    assume "update_graph_body lp d b s = Some (res, s')"
    then show "R s s'"
    proof (cases rule: update_graph_body_cases)
      case (full_raised ids s1 e)
      then have "R s s1" "R s1 s'" using gpop lp by blast+
      then show ?thesis using trans by blast
    next
      case (full ids s1 tr s2)
      then have "R s s1" "R s1 s2" "R s2 s'" using gpop lp restore by blast+
      then show ?thesis using trans by blast
    next
      case (lookup_raised ids e)
      then show ?thesis using gpop by blast
    next
      case (part_raised ids s1 refs e)
      then have "R s s1" "R s1 s'" using gpop lp by blast+
      then show ?thesis using trans by blast
    next
      case (part ids s1 refs tr)
      then have "R s s1" "R s1 s'" using gpop lp by blast+
      then show ?thesis using trans by blast
    qed
  qed
next
  fix fu :: fail_unreachable_t and mr :: maybe_run_t and lp :: ug_loop_t
  assume fu: "\<forall>m w s res s'. fu m w s = Some (res, s') \<longrightarrow> R s s'"
    and mr0: "\<forall>r s res s'. mr r s = Some (res, s') \<longrightarrow> RM r s s'"
    and lp: "\<forall>u js tr s res s'. lp u js tr s = Some (res, s') \<longrightarrow> R s s'"
  show "\<forall>u js tr s res s'. ug_loop_body fu mr lp u js tr s = Some (res, s') \<longrightarrow> R s s'"
  proof (intro allI impI)
    fix u js tr s res s'
    have mr: "R s1 s2" if "mr r s1 = Some (res, s2)" "\<not> removed (heap s1 r)" for r s1 s2 res
      using mr0 that drop by blast
    assume "ug_loop_body fu mr lp u js tr s = Some (res, s')"
    then show "R s s'"
    proof (cases rule: ug_loop_body_cases)
      case finished
      then show ?thesis by (simp add: refl)
    next
      case (skip r js1 s1)
      then have "R s s1" "R s1 s'" using pop lp by blast+
      then show ?thesis using trans by blast
    next
      case (fail_raised r js1 s1 e)
      then have "R s s1" "R s1 s'" using pop fu by blast+
      then show ?thesis using trans by blast
    next
      case (fail_next r js1 s1 s2)
      then have "R s s1" "R s1 s2" "R s2 s'" using pop fu lp by blast+
      then show ?thesis using trans by blast
    next
      case (run_raised r js1 s1 e)
      then have "R s s1" "R s1 s'" using pop mr by blast+
      then show ?thesis using trans by blast
    next
      case (ran_raised r js1 s1 s2 e)
      then have "R s s1" "R s1 s2" "R s2 s'" using pop mr arun by blast+
      then show ?thesis using trans by blast
    next
      case (ran_avail_raised r js1 s1 s2 e)
      then have "R s s1" "R s1 s2" "R s2 s'" using pop mr arun by blast+
      then show ?thesis using trans by blast
    next
      case (ran_break r js1 s1 s2)
      then have "R s s1" "R s1 s2" "R s2 s'" using pop mr arun by blast+
      then show ?thesis using trans by blast
    next
      case (ran_next r js1 s1 s2 s3 av)
      then have "R s s1" "R s1 s2" "R s2 s3" "R s3 s'" using pop mr arun lp by blast+
      then show ?thesis using trans by blast
    next
      case (wait_next r js1 s1 s2)
      then have "R s s1" "R s1 s2" "R s2 s'" using pop mr lp by blast+
      then show ?thesis using trans by blast
    next
      case (unmet_next r js1 s1)
      then have "R s s1" "R s1 s'" using pop lp by blast+
      then show ?thesis using trans by blast
    qed
  qed
next
  fix fu :: fail_unreachable_t
  assume fu: "\<forall>m w s res s'. fu m w s = Some (res, s') \<longrightarrow> R s s'"
  show "\<forall>r s res s'. maybe_run_body fu r s = Some (res, s') \<longrightarrow> RM r s s'"
  proof (intro allI impI)
    fix r s res s'
    assume "maybe_run_body fu r s = Some (res, s')"
    then show "RM r s s'"
    proof (cases rule: maybe_run_body_cases)
      case (avail_raised s0 e)
      then show ?thesis by (simp add: log lift)
    next
      case (no_engine s0)
      then show ?thesis by (simp add: log lift)
    next
      case (filter_raised s0 av e)
      then show ?thesis by (simp add: log lift)
    next
      case (dests_raised s0 av e)
      then show ?thesis by (simp add: log lift)
    next
      case (follow_fail s0 av dests fres)
      have "R s s0" using follow_fail(1) by (simp add: log)
      moreover have "R s0 (queue_map_set (msg_id (heap s r)) r s0)"
        using ins [of s0 r] follow_fail(1) by simp
      moreover have "R (queue_map_set (msg_id (heap s r)) r s0) s'"
        using follow_fail fu by blast
      ultimately show ?thesis using trans lift by blast
    next
      case (targets_fail s0 av s1 fres)
      have "R s s0" using targets_fail(1) by (simp add: log)
      moreover have "R s0 s1" using targets_fail tgt by simp
      moreover have "R (queue_map_set (msg_id (heap s r)) r s1) s'"
        using targets_fail fu by blast
      moreover have "msg_id (heap s1 r) = msg_id (heap s r)"
        using targets_fail(1,8) by (simp add: prune_targets_def upd_job_def)
      then have "R s1 (queue_map_set (msg_id (heap s r)) r s1)"
        using ins [of s1 r] by simp
      ultimately show ?thesis using trans lift by blast
    next
      case (targets_wait s0 av s1)
      have "R s s0" using targets_wait(1) by (simp add: log)
      moreover have "R s0 s'" using targets_wait tgt by simp
      ultimately show ?thesis using trans lift by blast
    next
      case (wait s0 av)
      then show ?thesis by (simp add: log lift)
    next
      case (placed s0 av indices sres)
      have "R s s0" "heap s0 r = heap s r" using placed(1) by (simp_all add: log)
      moreover have "RM r s0 s'" using sub1 [of s0 av r indices sres s'] placed by simp
      ultimately show ?thesis using pre by blast
    next
      case (placed_free s0 av sres)
      have "R s s0" "heap s0 r = heap s r" using placed_free(1) by (simp_all add: log)
      moreover have "RM r s0 s'" using sub2 [of s0 av r sres s'] placed_free by simp
      ultimately show ?thesis using pre by blast
    qed
  qed
qed simp_all

section \<open>What the recursive methods leave unchanged\<close>

lemma same_job_refl [simp]: "same_job j j"
  by (simp add: same_job_def)

lemma same_job_trans: "same_job j k \<Longrightarrow> same_job k l \<Longrightarrow> same_job j l"
  unfolding same_job_def by auto

lemma evolves_refl [simp]: "evolves s s"
  by (simp add: evolves_def)

lemma evolves_trans: "evolves s t \<Longrightarrow> evolves t u \<Longrightarrow> evolves s u"
  unfolding evolves_def by (auto intro: same_job_trans)

lemma evolves_log: "evolves s (log_msg e s)"
  by (simp add: evolves_def log_msg_def)

lemma evolves_emit: "evolves s (emit e s)"
  by (simp add: evolves_def emit_def)

lemma evolves_fail_job: "fail_job r m why s = (res, s') \<Longrightarrow> evolves s s'"
  unfolding fail_job_def Let_def
  by (auto simp: evolves_def emit_def log_msg_def upd_job_def same_job_def
      split: prod.splits sum.splits if_splits)

lemma evolves_graph_pop: "graph_pop d s = (ids, s') \<Longrightarrow> evolves s s'"
  unfolding graph_pop_def by (auto simp: evolves_def split: option.splits)

lemma evolves_restore: "evolves s (s\<lparr>queue := q\<rparr>)"
  by (simp add: evolves_def)

lemma evolves_pop_job: "pop_job u js s = Some (r, js1, s1) \<Longrightarrow> evolves s s1"
  unfolding pop_job_def by (auto simp: evolves_def split: if_splits list.splits)

lemma evolves_after_run: "after_run r s = (res, s') \<Longrightarrow> evolves s s'"
  unfolding after_run_def Let_def
  by (auto simp: evolves_def split: prod.splits option.splits)

lemma evolves_queue_map_set: "evolves s (queue_map_set m r s)"
  by (simp add: evolves_def queue_map_set_def)

lemma evolves_prune_targets: "evolves s (prune_targets r s)"
  by (simp add: evolves_def prune_targets_def upd_job_def same_job_def)

lemma evolves_add_job: "add_job idx s = (res, s') \<Longrightarrow> evolves s s'"
  unfolding add_job_def Let_def
  by (auto simp: evolves_def split: option.splits)

lemma evolves_submit_task: "submit_task r indices s = (res, s') \<Longrightarrow> evolves s s'"
  unfolding submit_task_def Let_def
  by (auto simp: evolves_def emit_def split: option.splits sum.splits prod.splits if_splits
      dest!: evolves_add_job)


lemma methods_evolve:
  "(\<forall>m w s res s'. fail_unreachable n m w s = Some (res, s') \<longrightarrow> evolves s s')
   \<and> (\<forall>d b s res s'. update_graph n d b s = Some (res, s') \<longrightarrow> evolves s s')
   \<and> (\<forall>u js tr s res s'. ug_loop n u js tr s = Some (res, s') \<longrightarrow> evolves s s')
   \<and> (\<forall>r s res s'. maybe_run n r s = Some (res, s') \<longrightarrow> evolves s s')"
  by (rule methods_rel [where R = evolves and RM = "\<lambda>r. evolves"])
    (auto intro: evolves_trans evolves_log evolves_fail_job evolves_graph_pop evolves_restore
      evolves_pop_job evolves_after_run evolves_queue_map_set evolves_prune_targets
      evolves_submit_task)

section \<open>More fuel changes nothing once a method has returned\<close>

lemma fail_unreachable_body_mono:
  assumes le: "\<And>d b s x. ug d b s = Some x \<Longrightarrow> ug' d b s = Some x"
    and a: "fail_unreachable_body ug m w s = Some (res, s')"
  shows "fail_unreachable_body ug' m w s = Some (res, s')"
  using a
proof (cases rule: fail_unreachable_body_cases)
  case not_waiting
  then show ?thesis by (simp add: fail_unreachable_body_def)
next
  case (raised r e)
  then show ?thesis by (simp add: fail_unreachable_body_def)
next
  case (failed r s1)
  then show ?thesis using le by (simp add: fail_unreachable_body_def)
qed

lemma update_graph_body_mono:
  assumes le: "\<And>u js tr s x. lp u js tr s = Some x \<Longrightarrow> lp' u js tr s = Some x"
    and a: "update_graph_body lp d b s = Some (res, s')"
  shows "update_graph_body lp' d b s = Some (res, s')"
  using a
proof (cases rule: update_graph_body_cases)
  case (full_raised ids s1 e)
  from this(1,2) le [OF this(3)] this(4) show ?thesis by (simp add: update_graph_body_def)
next
  case (full ids s1 tr s2)
  from this(1,2) le [OF this(3)] this(4,5) show ?thesis by (simp add: update_graph_body_def)
next
  case (lookup_raised ids e)
  then show ?thesis by (simp add: update_graph_body_def)
next
  case (part_raised ids s1 refs e)
  from this(1,2,3) le [OF this(4)] this(5) show ?thesis by (simp add: update_graph_body_def)
next
  case (part ids s1 refs tr)
  from this(1,2,3) le [OF this(4)] this(5) show ?thesis by (simp add: update_graph_body_def)
qed

lemma ug_loop_body_mono:
  assumes lf: "\<And>m w s x. fu m w s = Some x \<Longrightarrow> fu' m w s = Some x"
    and lm: "\<And>r s x. mr r s = Some x \<Longrightarrow> mr' r s = Some x"
    and ll: "\<And>u js tr s x. lp u js tr s = Some x \<Longrightarrow> lp' u js tr s = Some x"
    and a: "ug_loop_body fu mr lp u js tr s = Some (res, s')"
  shows "ug_loop_body fu' mr' lp' u js tr s = Some (res, s')"
  using a
proof (cases rule: ug_loop_body_cases)
  case finished
  then show ?thesis by (simp add: ug_loop_body_def)
next
  case (skip r js1 s1)
  from this(1,2) ll [OF this(3)] show ?thesis by (simp add: ug_loop_body_def)
next
  case (fail_raised r js1 s1 e)
  from this(1,2,3) lf [OF this(4)] this(5) show ?thesis by (simp add: ug_loop_body_def)
next
  case (fail_next r js1 s1 s2)
  from this(1,2,3) lf [OF this(4)] ll [OF this(5)] show ?thesis by (simp add: ug_loop_body_def)
next
  case (run_raised r js1 s1 e)
  from this(1,2,3,4) lm [OF this(5)] this(6) show ?thesis
    by (simp add: ug_loop_body_def Let_def)
next
  case (ran_raised r js1 s1 s2 e)
  from this(1,2,3,4) lm [OF this(5)] this(6,7) show ?thesis
    by (simp add: ug_loop_body_def Let_def)
next
  case (ran_avail_raised r js1 s1 s2 e)
  from this(1,2,3,4) lm [OF this(5)] this(6,7,8) show ?thesis
    by (simp add: ug_loop_body_def Let_def)
next
  case (ran_break r js1 s1 s2)
  from this(1,2,3,4) lm [OF this(5)] this(6,7,8) show ?thesis
    by (simp add: ug_loop_body_def Let_def)
next
  case (ran_next r js1 s1 s2 s3 av)
  from this(1,2,3,4) lm [OF this(5)] this(6,7,8) ll [OF this(9)] show ?thesis
    by (simp add: ug_loop_body_def Let_def)
next
  case (wait_next r js1 s1 s2)
  from this(1,2,3,4) lm [OF this(5)] ll [OF this(6)] show ?thesis
    by (simp add: ug_loop_body_def Let_def)
next
  case (unmet_next r js1 s1)
  from this(1,2,3,4) ll [OF this(5)] show ?thesis
    by (simp add: ug_loop_body_def Let_def)
qed


lemma maybe_run_body_mono:
  assumes lf: "\<And>m w s x. fu m w s = Some x \<Longrightarrow> fu' m w s = Some x"
    and a: "maybe_run_body fu r s = Some (res, s')"
  shows "maybe_run_body fu' r s = Some (res, s')"
  using a
proof (cases rule: maybe_run_body_cases)
  case (avail_raised s0 e)
  then show ?thesis by (simp add: maybe_run_body_def)
next
  case (no_engine s0)
  then show ?thesis by (simp add: maybe_run_body_def)
next
  case (filter_raised s0 av e)
  then show ?thesis by (simp add: maybe_run_body_def)
next
  case (dests_raised s0 av e)
  then show ?thesis by (simp add: maybe_run_body_def)
next
  case (follow_fail s0 av dests fres)
  from this(1-8) lf [OF this(9)] this(10) show ?thesis
    by (simp add: maybe_run_body_def split: sum.splits)
next
  case (targets_fail s0 av s1 fres)
  from this(1-9) lf [OF this(10)] this(11) show ?thesis
    by (cases "dep_all (follow (heap s r))")
       (clarsimp simp add: maybe_run_body_def Let_def split: sum.splits)+
next
  case (targets_wait s0 av s1)
  then show ?thesis
    by (cases "dep_all (follow (heap s r))") (clarsimp simp add: maybe_run_body_def Let_def)+
next
  case (wait s0 av)
  then show ?thesis
    by (cases "dep_all (follow (heap s r))") (clarsimp simp add: maybe_run_body_def Let_def)+
next
  case (placed s0 av indices sres)
  then show ?thesis by (simp add: maybe_run_body_def split: sum.splits)
next
  case (placed_free s0 av sres)
  then show ?thesis by (simp add: maybe_run_body_def split: sum.splits)
qed

lemma fuel_Suc:
  "(\<forall>m w s x. fail_unreachable n m w s = Some x \<longrightarrow> fail_unreachable (Suc n) m w s = Some x)
   \<and> (\<forall>d b s x. update_graph n d b s = Some x \<longrightarrow> update_graph (Suc n) d b s = Some x)
   \<and> (\<forall>u js tr s x. ug_loop n u js tr s = Some x \<longrightarrow> ug_loop (Suc n) u js tr s = Some x)
   \<and> (\<forall>r s x. maybe_run n r s = Some x \<longrightarrow> maybe_run (Suc n) r s = Some x)"
proof (induction n)
  case 0
  have "fail_unreachable (Suc 0) m w s = Some x" if "fail_unreachable 0 m w s = Some x"
    for m w s x
    using that unfolding fail_unreachable_0 fail_unreachable_Suc
    by (cases x) (auto elim!: fail_unreachable_body_mono [rotated])
  moreover have "update_graph (Suc 0) d b s = Some x" if "update_graph 0 d b s = Some x"
    for d b s x
    using that unfolding update_graph_0 update_graph_Suc
    by (cases x) (auto elim!: update_graph_body_mono [rotated])
  moreover have "ug_loop (Suc 0) u js tr s = Some x" if "ug_loop 0 u js tr s = Some x"
    for u js tr s x
    using that unfolding ug_loop_0 ug_loop_Suc
    by (cases x) (auto elim!: ug_loop_body_mono [rotated 3])
  moreover have "maybe_run (Suc 0) r s = Some x" if "maybe_run 0 r s = Some x" for r s x
    using that unfolding maybe_run_0 maybe_run_Suc
    by (cases x) (auto elim!: maybe_run_body_mono [rotated])
  ultimately show ?case by blast
next
  case (Suc n)
  have "fail_unreachable (Suc (Suc n)) m w s = Some x"
    if "fail_unreachable (Suc n) m w s = Some x" for m w s x
    using that Suc unfolding fail_unreachable_Suc [of "Suc n"] fail_unreachable_Suc [of n]
    by (cases x) (auto elim!: fail_unreachable_body_mono [rotated])
  moreover have "update_graph (Suc (Suc n)) d b s = Some x"
    if "update_graph (Suc n) d b s = Some x" for d b s x
    using that Suc unfolding update_graph_Suc [of "Suc n"] update_graph_Suc [of n]
    by (cases x) (auto elim!: update_graph_body_mono [rotated])
  moreover have "ug_loop (Suc (Suc n)) u js tr s = Some x"
    if "ug_loop (Suc n) u js tr s = Some x" for u js tr s x
    using that Suc unfolding ug_loop_Suc [of "Suc n"] ug_loop_Suc [of n]
    by (cases x) (auto elim!: ug_loop_body_mono [rotated 3])
  moreover have "maybe_run (Suc (Suc n)) r s = Some x"
    if "maybe_run (Suc n) r s = Some x" for r s x
    using that Suc unfolding maybe_run_Suc [of "Suc n"] maybe_run_Suc [of n]
    by (cases x) (auto elim!: maybe_run_body_mono [rotated])
  ultimately show ?case by blast
qed


lemma fuel_mono:
  assumes "n \<le> n'"
  shows "(\<forall>m w s x. fail_unreachable n m w s = Some x \<longrightarrow> fail_unreachable n' m w s = Some x)
   \<and> (\<forall>d b s x. update_graph n d b s = Some x \<longrightarrow> update_graph n' d b s = Some x)
   \<and> (\<forall>u js tr s x. ug_loop n u js tr s = Some x \<longrightarrow> ug_loop n' u js tr s = Some x)
   \<and> (\<forall>r s x. maybe_run n r s = Some x \<longrightarrow> maybe_run n' r s = Some x)"
  using assms
proof (induction n' rule: dec_induct)
  case base
  show ?case by simp
next
  case (step k)
  with fuel_Suc [of k] show ?case by (intro conjI allI impI) meson+
qed

section \<open>The number of waiting entries never grows\<close>

lemma length_delete_le: "length (AList.delete k al) \<le> length al"
  by (simp add: AList.delete_eq)

lemma length_delete_less: "map_of al k = Some v \<Longrightarrow> length (AList.delete k al) < length al"
  unfolding AList.delete_eq
  by (rule length_filter_less [of "(k, v)"]) (auto dest: map_of_SomeD)

lemma length_update_le: "length (AList.update k v al) \<le> Suc (length al)"
  by (induction al) auto

lemma qlen_log [simp]: "qlen (log_msg e s) = qlen s"
  by (simp add: qlen_def log_msg_def)

lemma qlen_fail_job:
  "fail_job r m why s = (res, s') \<Longrightarrow> map_of (queue_map s) m = Some r' \<Longrightarrow> qlen s' < qlen s"
  unfolding fail_job_def Let_def qlen_def
  by (auto simp: emit_def log_msg_def upd_job_def split: prod.splits sum.splits
      dest: length_delete_less)

lemma qlen_graph_pop: "graph_pop d s = (ids, s') \<Longrightarrow> qlen s' = qlen s"
  unfolding graph_pop_def qlen_def by (auto split: option.splits)

lemma qlen_pop_job: "pop_job u js s = Some (r, js1, s1) \<Longrightarrow> qlen s1 = qlen s"
  unfolding pop_job_def qlen_def by (auto split: if_splits list.splits)

lemma qlen_after_run: "after_run r s = (res, s') \<Longrightarrow> qlen s' \<le> qlen s"
  unfolding after_run_def Let_def qlen_def
  by (auto split: prod.splits option.splits simp: length_delete_le)

lemma qlen_queue_map_set: "qlen (queue_map_set m r s) \<le> Suc (qlen s)"
  by (simp add: qlen_def queue_map_set_def length_update_le)

lemma map_of_queue_map_set [simp]: "map_of (queue_map (queue_map_set m r s)) m = Some r"
  by (simp add: queue_map_set_def update_conv')

lemma qlen_prune_targets [simp]: "qlen (prune_targets r s) = qlen s"
  by (simp add: qlen_def prune_targets_def upd_job_def)

lemma qlen_add_job: "add_job idx s = (res, s') \<Longrightarrow> qlen s' = qlen s"
  unfolding add_job_def Let_def qlen_def by (auto split: option.splits)

lemma qlen_submit_task: "submit_task r indices s = (res, s') \<Longrightarrow> qlen s' = qlen s"
  unfolding submit_task_def Let_def
  by (auto simp: emit_def qlen_def split: option.splits sum.splits prod.splits if_splits
      dest!: qlen_add_job)

lemma methods_qlen:
  "(\<forall>m w s res s'. fail_unreachable n m w s = Some (res, s') \<longrightarrow>
      qlen s' \<le> qlen s \<and> (map_of (queue_map s) m \<noteq> None \<longrightarrow> qlen s' < qlen s))
   \<and> (\<forall>d b s res s'. update_graph n d b s = Some (res, s') \<longrightarrow> qlen s' \<le> qlen s)
   \<and> (\<forall>u js tr s res s'. ug_loop n u js tr s = Some (res, s') \<longrightarrow> qlen s' \<le> qlen s)
   \<and> (\<forall>r s res s'. maybe_run n r s = Some (res, s') \<longrightarrow> qlen s' \<le> qlen s)"
proof (rule methods_induct)
  fix ug :: update_graph_t
  assume ug: "\<forall>d b s res s'. ug d b s = Some (res, s') \<longrightarrow> qlen s' \<le> qlen s"
  show "\<forall>m w s res s'. fail_unreachable_body ug m w s = Some (res, s') \<longrightarrow>
      qlen s' \<le> qlen s \<and> (map_of (queue_map s) m \<noteq> None \<longrightarrow> qlen s' < qlen s)"
  proof (intro allI impI)
    fix m w s res s'
    assume "fail_unreachable_body ug m w s = Some (res, s')"
    then show "qlen s' \<le> qlen s \<and> (map_of (queue_map s) m \<noteq> None \<longrightarrow> qlen s' < qlen s)"
    proof (cases rule: fail_unreachable_body_cases)
      case not_waiting
      then show ?thesis by simp
    next
      case (raised r e)
      then show ?thesis using qlen_fail_job by fastforce
    next
      case (failed r s1)
      then have "qlen s1 < qlen s" "qlen s' \<le> qlen s1" using qlen_fail_job ug by blast+
      then show ?thesis by simp
    qed
  qed
next
  fix lp :: ug_loop_t
  assume lp: "\<forall>u js tr s res s'. lp u js tr s = Some (res, s') \<longrightarrow> qlen s' \<le> qlen s"
  show "\<forall>d b s res s'. update_graph_body lp d b s = Some (res, s') \<longrightarrow> qlen s' \<le> qlen s"
  proof (intro allI impI)
    fix d b s res s'
    assume "update_graph_body lp d b s = Some (res, s')"
    then show "qlen s' \<le> qlen s"
    proof (cases rule: update_graph_body_cases)
      case (full_raised ids s1 e)
      then have "qlen s1 = qlen s" "qlen s' \<le> qlen s1" using qlen_graph_pop lp by blast+
      then show ?thesis by simp
    next
      case (full ids s1 tr s2)
      then have "qlen s1 = qlen s" "qlen s2 \<le> qlen s1" using qlen_graph_pop lp by blast+
      then show ?thesis using full by (simp add: qlen_def)
    next
      case (lookup_raised ids e)
      then show ?thesis using qlen_graph_pop by fastforce
    next
      case (part_raised ids s1 refs e)
      then have "qlen s1 = qlen s" "qlen s' \<le> qlen s1" using qlen_graph_pop lp by blast+
      then show ?thesis by simp
    next
      case (part ids s1 refs tr)
      then have "qlen s1 = qlen s" "qlen s' \<le> qlen s1" using qlen_graph_pop lp by blast+
      then show ?thesis by simp
    qed
  qed
next
  fix fu :: fail_unreachable_t and mr :: maybe_run_t and lp :: ug_loop_t
  assume fu: "\<forall>m w s res s'. fu m w s = Some (res, s') \<longrightarrow>
      qlen s' \<le> qlen s \<and> (map_of (queue_map s) m \<noteq> None \<longrightarrow> qlen s' < qlen s)"
    and mr: "\<forall>r s res s'. mr r s = Some (res, s') \<longrightarrow> qlen s' \<le> qlen s"
    and lp: "\<forall>u js tr s res s'. lp u js tr s = Some (res, s') \<longrightarrow> qlen s' \<le> qlen s"
  show "\<forall>u js tr s res s'. ug_loop_body fu mr lp u js tr s = Some (res, s') \<longrightarrow> qlen s' \<le> qlen s"
  proof (intro allI impI)
    fix u js tr s res s'
    assume "ug_loop_body fu mr lp u js tr s = Some (res, s')"
    then show "qlen s' \<le> qlen s"
    proof (cases rule: ug_loop_body_cases)
      case finished
      then show ?thesis by simp
    next
      case (skip r js1 s1)
      then have "qlen s1 = qlen s" "qlen s' \<le> qlen s1" using qlen_pop_job lp by blast+
      then show ?thesis by simp
    next
      case (fail_raised r js1 s1 e)
      then have "qlen s1 = qlen s" "qlen s' \<le> qlen s1" using qlen_pop_job fu by blast+
      then show ?thesis by simp
    next
      case (fail_next r js1 s1 s2)
      then have "qlen s1 = qlen s" "qlen s2 \<le> qlen s1" "qlen s' \<le> qlen s2"
        using qlen_pop_job fu lp by blast+
      then show ?thesis by simp
    next
      case (run_raised r js1 s1 e)
      then have "qlen s1 = qlen s" "qlen s' \<le> qlen s1" using qlen_pop_job mr by blast+
      then show ?thesis by simp
    next
      case (ran_raised r js1 s1 s2 e)
      then have "qlen s1 = qlen s" "qlen s2 \<le> qlen s1" "qlen s' \<le> qlen s2"
        using qlen_pop_job mr qlen_after_run by blast+
      then show ?thesis by simp
    next
      case (ran_avail_raised r js1 s1 s2 e)
      then have "qlen s1 = qlen s" "qlen s2 \<le> qlen s1" "qlen s' \<le> qlen s2"
        using qlen_pop_job mr qlen_after_run by blast+
      then show ?thesis by simp
    next
      case (ran_break r js1 s1 s2)
      then have "qlen s1 = qlen s" "qlen s2 \<le> qlen s1" "qlen s' \<le> qlen s2"
        using qlen_pop_job mr qlen_after_run by blast+
      then show ?thesis by simp
    next
      case (ran_next r js1 s1 s2 s3 av)
      then have "qlen s1 = qlen s" "qlen s2 \<le> qlen s1" "qlen s3 \<le> qlen s2" "qlen s' \<le> qlen s3"
        using qlen_pop_job mr qlen_after_run lp by blast+
      then show ?thesis by simp
    next
      case (wait_next r js1 s1 s2)
      then have "qlen s1 = qlen s" "qlen s2 \<le> qlen s1" "qlen s' \<le> qlen s2"
        using qlen_pop_job mr lp by blast+
      then show ?thesis by simp
    next
      case (unmet_next r js1 s1)
      then have "qlen s1 = qlen s" "qlen s' \<le> qlen s1" using qlen_pop_job lp by blast+
      then show ?thesis by simp
    qed
  qed
next
  fix fu :: fail_unreachable_t
  assume fu: "\<forall>m w s res s'. fu m w s = Some (res, s') \<longrightarrow>
      qlen s' \<le> qlen s \<and> (map_of (queue_map s) m \<noteq> None \<longrightarrow> qlen s' < qlen s)"
  show "\<forall>r s res s'. maybe_run_body fu r s = Some (res, s') \<longrightarrow> qlen s' \<le> qlen s"
  proof (intro allI impI)
    fix r s res s'
    assume "maybe_run_body fu r s = Some (res, s')"
    then show "qlen s' \<le> qlen s"
    proof (cases rule: maybe_run_body_cases)
      case (follow_fail s0 av dests fres)
      have "qlen s' < qlen (queue_map_set (msg_id (heap s r)) r s0)"
        using follow_fail(9) fu by fastforce
      moreover have "qlen (queue_map_set (msg_id (heap s r)) r s0) \<le> Suc (qlen s)"
        using qlen_queue_map_set [of _ _ s0] follow_fail(1) by simp
      ultimately show ?thesis by simp
    next
      case (targets_fail s0 av s1 fres)
      have "qlen s' < qlen (queue_map_set (msg_id (heap s r)) r s1)"
        using targets_fail(10) fu by fastforce
      moreover have "qlen (queue_map_set (msg_id (heap s r)) r s1) \<le> Suc (qlen s)"
        using qlen_queue_map_set [of _ _ s1] targets_fail(1,8) by simp
      ultimately show ?thesis by simp
    next
      case (placed s0 av indices sres)
      then show ?thesis using qlen_submit_task by fastforce
    next
      case (placed_free s0 av sres)
      then show ?thesis using qlen_submit_task by fastforce
    qed simp_all
  qed
qed simp_all


section \<open>Termination\<close>

lemma evolves_alive: "evolves s s' \<Longrightarrow> alive s' \<subseteq> alive s"
  by (auto simp: evolves_def same_job_def alive_def)

lemma evolves_removed: "evolves s s' \<Longrightarrow> removed (heap s r) \<Longrightarrow> removed (heap s' r)"
  by (auto simp: evolves_def same_job_def)

lemma card_alive_le: "finite (alive s) \<Longrightarrow> evolves s s' \<Longrightarrow> card (alive s') \<le> card (alive s)"
  by (simp add: card_mono evolves_alive)

lemma finite_alive: "finite (alive s) \<Longrightarrow> evolves s s' \<Longrightarrow> finite (alive s')"
  using evolves_alive finite_subset by blast

lemma card_alive_less:
  assumes "finite (alive s)" "evolves s s'" "\<not> removed (heap s r)" "removed (heap s' r)"
  shows "card (alive s') < card (alive s)"
proof -
  have "alive s' \<subseteq> alive s" using assms(2) by (rule evolves_alive)
  moreover have "r \<in> alive s" "r \<notin> alive s'" using assms(3,4) by (simp_all add: alive_def)
  ultimately have "alive s' \<subset> alive s" by blast
  with assms(1) show ?thesis by (rule psubset_card_mono)
qed

lemma wf_loop_rel: "wf loop_rel"
  unfolding loop_rel_def by (intro wf_inv_image wf_lex_prod wf_less_than)

lemma loop_rel_I:
  assumes "card (alive s') \<le> card (alive s)" "qlen s' \<le> qlen s"
    and "card (alive s') < card (alive s) \<or> qlen s' < qlen s
         \<or> length (if u' then queue s' else js') < length (if u then queue s else js)"
  shows "((u', js', s'), (u, js, s)) \<in> loop_rel"
  using assms by (auto simp: loop_rel_def loop_measure_def)

lemma pop_job_facts:
  assumes "pop_job u js s = Some (r, js1, s1)"
  shows "heap s1 = heap s" "queue_map s1 = queue_map s" "evolves s s1"
    "length (if u then queue s1 else js1) < length (if u then queue s else js)"
    "all_completed s1 = all_completed s" "all_failed s1 = all_failed s"
  using assms unfolding pop_job_def
  by (auto simp: evolves_def split: if_splits list.splits)

lemma queue_log [simp]: "queue (log_msg e s) = queue s"
  by (simp add: log_msg_def)

lemma queue_prune_targets [simp]: "queue (prune_targets r s) = queue s"
  by (simp add: prune_targets_def upd_job_def)

lemma queue_add_job: "add_job idx s = (res, s') \<Longrightarrow> queue s' = queue s"
  unfolding add_job_def Let_def by (auto split: option.splits)

lemma queue_submit_task: "submit_task r indices s = (res, s') \<Longrightarrow> queue s' = queue s"
  unfolding submit_task_def Let_def
  by (auto simp: emit_def split: option.splits sum.splits prod.splits if_splits
      dest!: queue_add_job)

lemma queue_after_run: "after_run r s = (res, s') \<Longrightarrow> queue s' = queue s"
  unfolding after_run_def Let_def by (auto split: prod.splits option.splits)

lemma graph_pop_facts:
  assumes "graph_pop d s = (ids, s')"
  shows "heap s' = heap s" "queue_map s' = queue_map s" "queue s' = queue s"
  using assms unfolding graph_pop_def by (auto split: option.splits)

lemma fail_job_removed: "fail_job r m why s = (res, s') \<Longrightarrow> removed (heap s' r)"
  unfolding fail_job_def Let_def
  by (auto simp: emit_def log_msg_def upd_job_def split: prod.splits sum.splits)


text \<open>What \<open>maybe_run\<close> does is fixed by the state, up to the result of the one call of
  \<open>fail_unreachable\<close> it may make.\<close>

lemma maybe_run_body_forward:
  obtains (direct) res s' where "\<And>fu. maybe_run_body fu r s = Some (res, s')"
  | (fail) st where
      "st = queue_map_set (msg_id (heap s r)) r (log_msg (Log_debug ''Attempting to assign task'') s)
       \<or> st = queue_map_set (msg_id (heap s r)) r
                (prune_targets r (log_msg (Log_debug ''Attempting to assign task'') s))"
      "\<And>fu. maybe_run_body fu r s =
         (case fu (msg_id (heap s r)) ImpossibleDependency st of
            None \<Rightarrow> None
          | Some (Inl e, s2) \<Rightarrow> Some (Inl e, s2)
          | Some (Inr u, s2) \<Rightarrow> Some (Inr False, s2))"
proof -
  let ?s0 = "log_msg (Log_debug ''Attempting to assign task'') s"
  let ?job = "heap s r"
  let ?m = "msg_id (heap s r)"
  note d = maybe_run_body_def Let_def
  show ?thesis
  proof (cases "available_engines ?s0")
    case (Inl e)
    then have "\<And>fu. maybe_run_body fu r s = Some (Inl e, ?s0)" by (simp add: d)
    then show ?thesis by (rule direct)
  next
    case (Inr av)
    show ?thesis
    proof (cases "av = []")
      case True
      with Inr have "\<And>fu. maybe_run_body fu r s = Some (Inr False, ?s0)" by (simp add: d)
      then show ?thesis by (rule direct)
    next
      case av: False
      show ?thesis
      proof (cases "dep_ids (follow ?job) \<noteq> [] \<or> targets ?job \<noteq> {} \<or> blacklist ?job \<noteq> {}
                    \<or> hwm ?s0 \<noteq> 0")
        case False
        obtain sres s2 where st: "submit_task r None ?s0 = (sres, s2)"
          by (cases "submit_task r None ?s0")
        from False st av Inr
        have "\<And>fu. maybe_run_body fu r s =
            Some (case sres of Inl e \<Rightarrow> Inl e | Inr v \<Rightarrow> Inr True, s2)"
          by (simp add: d split: sum.splits)
        then show ?thesis by (rule direct)
      next
        case con: True
        show ?thesis
        proof (cases "filter_can_run ?s0 ?job av")
          case (Inl e)
          from this con av Inr have "\<And>fu. maybe_run_body fu r s = Some (Inl e, ?s0)"
            by (simp add: d)
          then show ?thesis by (rule direct)
        next
          case f: (Inr indices)
          show ?thesis
          proof (cases "indices = []")
            case False
            obtain sres s2 where st: "submit_task r (Some indices) ?s0 = (sres, s2)"
              by (cases "submit_task r (Some indices) ?s0")
            from False st f con av Inr
            have "\<And>fu. maybe_run_body fu r s =
                Some (case sres of Inl e \<Rightarrow> Inl e | Inr v \<Rightarrow> Inr True, s2)"
              by (simp add: d split: sum.splits)
            then show ?thesis by (rule direct)
          next
            case emp: True
            show ?thesis
            proof (cases "if dep_all (follow ?job) then follow_dests ?s0 ?job else Inr {}")
              case (Inl e)
              then have da: "dep_all (follow ?job)" "follow_dests ?s0 ?job = Inl e"
                by (auto split: if_splits)
              from da emp f con av Inr
              have "\<And>fu. maybe_run_body fu r s = Some (Inl e, ?s0)" by (simp add: d)
              then show ?thesis by (rule direct)
            next
              case d1: (Inr dests)
              show ?thesis
              proof (cases "card dests > 1")
                case True
                with d1 have da: "dep_all (follow ?job)" "follow_dests ?s0 ?job = Inr dests"
                  by (auto split: if_splits)
                from True da emp f con av Inr show ?thesis
                  by (intro fail [of "queue_map_set ?m r ?s0"]) (simp_all add: d)
              next
                case small: False
                show ?thesis
                proof (cases "targets ?job = {}")
                  case True
                  from True small d1 emp f con av Inr
                  have "\<And>fu. maybe_run_body fu r s = Some (Inr False, ?s0)"
                    by (cases "dep_all (follow ?job)") (simp_all add: d)
                  then show ?thesis by (rule direct)
                next
                  case tg: False
                  show ?thesis
                  proof (cases "targets (heap (prune_targets r ?s0) r) = {}
                      \<or> targets (heap (prune_targets r ?s0) r)
                          \<inter> set (targets_s (prune_targets r ?s0)) = {}")
                    case False
                    from False tg small d1 emp f con av Inr
                    have "\<And>fu. maybe_run_body fu r s = Some (Inr False, prune_targets r ?s0)"
                      by (cases "dep_all (follow ?job)") (simp_all add: d)
                    then show ?thesis by (rule direct)
                  next
                    case True
                    from True tg small d1 emp f con av Inr show ?thesis
                      by (intro fail [of "queue_map_set ?m r (prune_targets r ?s0)"];
                          cases "dep_all (follow ?job)"; simp add: d)
                  qed
                qed
              qed
            qed
          qed
        qed
      qed
    qed
  qed
qed

lemma fu_defined:
  assumes "\<And>r s1. map_of (queue_map s) m = Some r \<Longrightarrow> fail_job r m why s = (Inr (), s1) \<Longrightarrow>
      \<exists>n. update_graph n (Some m) False s1 \<noteq> None"
  shows "\<exists>n. fail_unreachable n m why s \<noteq> None"
proof (cases "map_of (queue_map s) m")
  case None
  then have "fail_unreachable 0 m why s \<noteq> None"
    by (simp add: fail_unreachable_0 fail_unreachable_body_def)
  then show ?thesis ..
next
  case (Some r)
  obtain res1 s1 where fj: "fail_job r m why s = (res1, s1)" by (cases "fail_job r m why s")
  show ?thesis
  proof (cases res1)
    case (Inl e)
    with Some fj have "fail_unreachable 0 m why s \<noteq> None"
      by (simp add: fail_unreachable_0 fail_unreachable_body_def)
    then show ?thesis ..
  next
    case (Inr v)
    then have fj': "fail_job r m why s = (Inr (), s1)" using fj by simp
    from assms [OF Some fj'] obtain n where "update_graph n (Some m) False s1 \<noteq> None"
      by blast
    with Some fj Inr have "fail_unreachable (Suc n) m why s \<noteq> None"
      by (simp add: fail_unreachable_Suc fail_unreachable_body_def)
    then show ?thesis ..
  qed
qed

lemma ug_defined:
  assumes "\<And>ids s1 u js. graph_pop d s = (ids, s1) \<Longrightarrow> \<exists>n. ug_loop n u js [] s1 \<noteq> None"
  shows "\<exists>n. update_graph n d b s \<noteq> None"
proof -
  obtain ids s1 where gp: "graph_pop d s = (ids, s1)" by (cases "graph_pop d s")
  show ?thesis
  proof (cases "full_scan d s1")
    case True
    from assms [OF gp] obtain n x where "ug_loop n True [] [] s1 = Some x" by blast
    with gp True have "update_graph (Suc n) d b s \<noteq> None"
      by (simp add: update_graph_Suc update_graph_body_def split: sum.splits prod.splits)
    then show ?thesis ..
  next
    case False
    show ?thesis
    proof (cases "lookup_jobs (queue_map s1) ids")
      case (Inl e)
      with gp False have "update_graph 0 d b s \<noteq> None"
        by (simp add: update_graph_0 update_graph_body_def)
      then show ?thesis ..
    next
      case (Inr refs)
      from assms [OF gp] obtain n x where
        "ug_loop n False (sort_key (\<lambda>r. timestamp (heap s1 r)) refs) [] s1 = Some x" by blast
      with gp False Inr have "update_graph (Suc n) d b s \<noteq> None"
        by (simp add: update_graph_Suc update_graph_body_def split: sum.splits prod.splits)
      then show ?thesis ..
    qed
  qed
qed

lemma evolves_to_fail_state:
  "evolves s (queue_map_set m r (log_msg e s))"
  "evolves s (queue_map_set m r (prune_targets r (log_msg e s)))"
  by (blast intro: evolves_trans evolves_log evolves_queue_map_set evolves_prune_targets)+

lemma removed_fail_state:
  "removed (heap (queue_map_set m r (log_msg e s)) r') = removed (heap s r')"
  "removed (heap (queue_map_set m r (prune_targets r (log_msg e s))) r') = removed (heap s r')"
  by (simp_all add: queue_map_set_def prune_targets_def upd_job_def log_msg_def)

lemma qlen_fail_state:
  "qlen (queue_map_set m r (log_msg e s)) \<le> Suc (qlen s)"
  "qlen (queue_map_set m r (prune_targets r (log_msg e s))) \<le> Suc (qlen s)"
  using qlen_queue_map_set [of m r "log_msg e s"]
    qlen_queue_map_set [of m r "prune_targets r (log_msg e s)"] by simp_all

lemma mr_defined:
  assumes "\<And>st. map_of (queue_map st) (msg_id (heap s r)) = Some r \<Longrightarrow> evolves s st \<Longrightarrow>
      removed (heap st r) = removed (heap s r) \<Longrightarrow> qlen st \<le> Suc (qlen s) \<Longrightarrow>
      \<exists>n. fail_unreachable n (msg_id (heap s r)) ImpossibleDependency st \<noteq> None"
  shows "\<exists>n. maybe_run n r s \<noteq> None"
proof (cases rule: maybe_run_body_forward [of r s])
  case (direct res s')
  then have "maybe_run 0 r s \<noteq> None" by (simp add: maybe_run_0)
  then show ?thesis ..
next
  case (fail st)
  from fail(1) have "map_of (queue_map st) (msg_id (heap s r)) = Some r" "evolves s st"
    "removed (heap st r) = removed (heap s r)" "qlen st \<le> Suc (qlen s)"
    using evolves_to_fail_state removed_fail_state qlen_fail_state by auto
  from assms [OF this] obtain n x where
    "fail_unreachable n (msg_id (heap s r)) ImpossibleDependency st = Some x" by blast
  then have "maybe_run (Suc n) r s \<noteq> None"
    by (simp add: maybe_run_Suc fail(2) split: sum.splits prod.splits)
  then show ?thesis ..
qed


lemma fail_unreachable_removed:
  assumes "fail_unreachable n m w s = Some (res, s')" "map_of (queue_map s) m = Some r"
  shows "removed (heap s' r)"
proof -
  have "removed (heap s' r)" if "fail_unreachable_body ug m w s = Some (res, s')"
    and ug: "\<And>d b s res s'. ug d b s = Some (res, s') \<Longrightarrow> evolves s s'" for ug
    using that(1)
  proof (cases rule: fail_unreachable_body_cases)
    case not_waiting
    with assms(2) show ?thesis by simp
  next
    case (raised r' e)
    with assms(2) show ?thesis using fail_job_removed by fastforce
  next
    case (failed r' s1)
    with assms(2) have "removed (heap s1 r)" using fail_job_removed by fastforce
    moreover have "evolves s1 s'" using failed(3) ug by blast
    ultimately show ?thesis by (rule evolves_removed [rotated])
  qed
  then show ?thesis
    using assms(1) methods_evolve
    by (cases n) (fastforce simp: fail_unreachable_0 fail_unreachable_Suc)+
qed

lemma fail_unreachable_not_waiting_eq:
  assumes "map_of (queue_map s) m = None"
  shows "fail_unreachable n m w s = Some (Inr (), log_msg (Log_error ''task already failed!'') s)"
  using assms
  by (cases n) (simp_all add: fail_unreachable_0 fail_unreachable_Suc fail_unreachable_body_def)

lemma maybe_run_True_queue:
  assumes "maybe_run n r s = Some (Inr True, s')"
  shows "queue s' = queue s"
proof -
  have "queue s' = queue s" if "maybe_run_body fu r s = Some (Inr True, s')" for fu
    using that
    by (cases rule: maybe_run_body_cases)
       (auto split: sum.splits dest: queue_submit_task)
  then show ?thesis using assms by (cases n) (auto simp: maybe_run_0 maybe_run_Suc)
qed

lemma maybe_run_False_queue:
  assumes "maybe_run n r s = Some (Inr False, s')"
  shows "removed (heap s' r) \<or> queue s' = queue s"
proof -
  have "removed (heap s' r) \<or> queue s' = queue s"
    if "maybe_run_body fu r s = Some (Inr False, s')"
      and fu: "\<And>m w st res s'. fu m w st = Some (res, s') \<Longrightarrow> map_of (queue_map st) m = Some r
        \<Longrightarrow> removed (heap s' r)" for fu
    using that(1)
  proof (cases rule: maybe_run_body_cases)
    case (follow_fail s0 av dests fres)
    then show ?thesis using fu [OF follow_fail(9)] by simp
  next
    case (targets_fail s0 av s1 fres)
    then show ?thesis using fu [OF targets_fail(10)] by simp
  qed (auto split: sum.splits)
  then show ?thesis
    using assms fail_unreachable_removed
    by (cases n) (fastforce simp: maybe_run_0 maybe_run_Suc)+
qed


lemma fail_unreachable_evolves: "fail_unreachable n m w s = Some (res, s') \<Longrightarrow> evolves s s'"
  and update_graph_evolves: "update_graph n d b s = Some (res1, s') \<Longrightarrow> evolves s s'"
  and ug_loop_evolves: "ug_loop n u js tr s = Some (res2, s') \<Longrightarrow> evolves s s'"
  and maybe_run_evolves: "maybe_run n r s = Some (res3, s') \<Longrightarrow> evolves s s'"
  using methods_evolve [of n] by blast+

lemma fail_unreachable_qlen: "fail_unreachable n m w s = Some (res, s') \<Longrightarrow> qlen s' \<le> qlen s"
  and fail_unreachable_qlen_less:
    "fail_unreachable n m w s = Some (res, s') \<Longrightarrow> map_of (queue_map s) m = Some r' \<Longrightarrow>
       qlen s' < qlen s"
  and update_graph_qlen: "update_graph n d b s = Some (res1, s') \<Longrightarrow> qlen s' \<le> qlen s"
  and ug_loop_qlen: "ug_loop n u js tr s = Some (res2, s') \<Longrightarrow> qlen s' \<le> qlen s"
  and maybe_run_qlen: "maybe_run n r s = Some (res3, s') \<Longrightarrow> qlen s' \<le> qlen s"
  using methods_qlen [of n] by (blast, fastforce, blast+)

lemma fail_unreachable_fuel:
    "fail_unreachable n m w s = Some x \<Longrightarrow> n \<le> n' \<Longrightarrow> fail_unreachable n' m w s = Some x"
  and update_graph_fuel:
    "update_graph n d b s = Some x1 \<Longrightarrow> n \<le> n' \<Longrightarrow> update_graph n' d b s = Some x1"
  and ug_loop_fuel:
    "ug_loop n u js tr s = Some x2 \<Longrightarrow> n \<le> n' \<Longrightarrow> ug_loop n' u js tr s = Some x2"
  and maybe_run_fuel:
    "maybe_run n r s = Some x3 \<Longrightarrow> n \<le> n' \<Longrightarrow> maybe_run n' r s = Some x3"
  using fuel_mono [of n n'] by blast+

lemma alive_heap_eq: "heap s' = heap s \<Longrightarrow> alive s' = alive s"
  by (simp add: alive_def)

lemma qlen_queue_map_eq: "queue_map s' = queue_map s \<Longrightarrow> qlen s' = qlen s"
  by (simp add: qlen_def)

lemma ug_loop_defined_aux:
  "\<forall>u js s tr. x = (u, js, s) \<longrightarrow> finite (alive s) \<longrightarrow> (\<exists>n. ug_loop n u js tr s \<noteq> None)"
proof (rule wf_induct [OF wf_loop_rel, of _ x], intro allI impI)
  fix x u js s tr
  assume IH: "\<forall>y. (y, x) \<in> loop_rel \<longrightarrow>
      (\<forall>u js s tr. y = (u, js, s) \<longrightarrow> finite (alive s) \<longrightarrow> (\<exists>n. ug_loop n u js tr s \<noteq> None))"
    and x: "x = (u, js, s)" and fin: "finite (alive s)"
  have less: "\<exists>n. ug_loop n u' js' tr' s' \<noteq> None"
    if "((u', js', s'), (u, js, s)) \<in> loop_rel" "finite (alive s')" for u' js' s' tr'
    using IH x that by blast
  have below: "\<exists>n. ug_loop n u' js' tr' t \<noteq> None"
    if "finite (alive t)" "card (alive t) \<le> card (alive s)" "qlen t \<le> qlen s"
      "card (alive t) < card (alive s) \<or> qlen t < qlen s
         \<or> length (if u' then queue t else js') < length (if u then queue s else js)"
    for u' js' tr' t
    using less [OF loop_rel_I [OF that(2,3,4)] that(1)] .
  have ug_below: "\<exists>n. update_graph n d b t \<noteq> None"
    if "finite (alive t)" "card (alive t) \<le> card (alive s)" "qlen t \<le> qlen s"
      "card (alive t) < card (alive s) \<or> qlen t < qlen s"
    for d b t
  proof (rule ug_defined)
    fix ids t1 u' js'
    assume "graph_pop d t = (ids, t1)"
    then have "alive t1 = alive t" "qlen t1 = qlen t"
      using graph_pop_facts alive_heap_eq qlen_queue_map_eq by blast+
    with that show "\<exists>n. ug_loop n u' js' [] t1 \<noteq> None" by (intro below) auto
  qed
  have fu_any: "\<exists>n. fail_unreachable n m w t \<noteq> None"
    if "finite (alive t)" "card (alive t) \<le> card (alive s)" "qlen t \<le> qlen s" for m w t
  proof (rule fu_defined)
    fix r' t1
    assume a: "map_of (queue_map t) m = Some r'" "fail_job r' m w t = (Inr (), t1)"
    then have "evolves t t1" "qlen t1 < qlen t"
      using evolves_fail_job qlen_fail_job by blast+
    with that show "\<exists>n. update_graph n (Some m) False t1 \<noteq> None"
      using finite_alive card_alive_le by (intro ug_below) fastforce+
  qed
  have mr_any: "\<exists>n. maybe_run n r t \<noteq> None"
    if "finite (alive t)" "card (alive t) \<le> card (alive s)" "qlen t \<le> qlen s"
      "\<not> removed (heap t r)" for r t
  proof (rule mr_defined)
    fix st
    assume st: "map_of (queue_map st) (msg_id (heap t r)) = Some r" "evolves t st"
      "removed (heap st r) = removed (heap t r)" "qlen st \<le> Suc (qlen t)"
    show "\<exists>n. fail_unreachable n (msg_id (heap t r)) ImpossibleDependency st \<noteq> None"
    proof (rule fu_defined)
      fix r' t1
      assume a: "map_of (queue_map st) (msg_id (heap t r)) = Some r'"
        "fail_job r' (msg_id (heap t r)) ImpossibleDependency st = (Inr (), t1)"
      with st(1) have r': "r' = r" by simp
      from a have e1: "evolves st t1" "qlen t1 < qlen st" "removed (heap t1 r)"
        using evolves_fail_job qlen_fail_job fail_job_removed r' by blast+
      with st(2) have e: "evolves t t1" using evolves_trans by blast
      have "card (alive t1) < card (alive t)"
        using card_alive_less [OF that(1) e that(4) e1(3)] .
      moreover have "qlen t1 \<le> qlen t" using e1(2) st(4) by simp
      moreover have "finite (alive t1)" using finite_alive [OF that(1) e] .
      ultimately show "\<exists>n. update_graph n (Some (msg_id (heap t r))) False t1 \<noteq> None"
        using that(2,3) by (intro ug_below) auto
    qed
  qed
  show "\<exists>n. ug_loop n u js tr s \<noteq> None"
  proof (cases "pop_job u js s")
    case None
    then have "ug_loop 0 u js tr s \<noteq> None" by (simp add: ug_loop_0 ug_loop_body_def)
    then show ?thesis ..
  next
    case (Some x)
    then obtain r js1 s1 where pop: "pop_job u js s = Some (r, js1, s1)" by (cases x) auto
    note pf = pop_job_facts [OF pop]
    have a1: "alive s1 = alive s" "qlen s1 = qlen s"
      using pf(1,2) by (simp_all add: alive_def qlen_def)
    have fin1: "finite (alive s1)" using fin a1 by simp
    have next1: "\<exists>n. ug_loop n u js1 tr' s1 \<noteq> None" for tr'
      using fin1 a1 pf(4) by (intro below) auto
    show ?thesis
    proof (cases "removed (heap s1 r)")
      case True
      from next1 obtain n where "ug_loop n u js1 tr s1 \<noteq> None" by blast
      with pop True have "ug_loop (Suc n) u js tr s \<noteq> None"
        by (simp add: ug_loop_Suc ug_loop_body_def)
      then show ?thesis ..
    next
      case nrem: False
      show ?thesis
      proof (cases "unreachable (after (heap s1 r)) (all_completed s1) (all_failed s1)
          \<or> unreachable (follow (heap s1 r)) (all_completed s1) (all_failed s1)")
        case unr: True
        from fu_any [of s1 "msg_id (heap s1 r)" ImpossibleDependency] fin1 a1
        obtain n1 fres s2 where
          f1: "fail_unreachable n1 (msg_id (heap s1 r)) ImpossibleDependency s1 = Some (fres, s2)"
          by auto
        show ?thesis
        proof (cases fres)
          case (Inl e)
          with pop nrem unr f1 have "ug_loop (Suc n1) u js tr s \<noteq> None"
            by (simp add: ug_loop_Suc ug_loop_body_def)
          then show ?thesis ..
        next
          case (Inr v)
          have e: "evolves s1 s2" "qlen s2 \<le> qlen s1"
            using f1 fail_unreachable_evolves fail_unreachable_qlen by blast+
          have "qlen s2 < qlen s1 \<or> queue s2 = queue s1"
          proof (cases "map_of (queue_map s1) (msg_id (heap s1 r))")
            case None
            from fail_unreachable_not_waiting_eq [OF this] f1 show ?thesis by auto
          next
            case (Some r')
            then show ?thesis using f1 fail_unreachable_qlen_less by blast
          qed
          then have "\<exists>n. ug_loop n u js1 tr s2 \<noteq> None"
            using e fin1 a1 pf(4) finite_alive [OF fin1 e(1)] card_alive_le [OF fin1 e(1)]
            by (intro below) auto
          then obtain n2 y where l2: "ug_loop n2 u js1 tr s2 = Some y" by blast
          define n where "n = max n1 n2"
          have "fail_unreachable n (msg_id (heap s1 r)) ImpossibleDependency s1 = Some (fres, s2)"
            "ug_loop n u js1 tr s2 = Some y"
            using fail_unreachable_fuel [OF f1, of n] ug_loop_fuel [OF l2, of n]
            by (simp_all add: n_def)
          with pop nrem unr Inr have "ug_loop (Suc n) u js tr s \<noteq> None"
            by (simp add: ug_loop_Suc ug_loop_body_def)
          then show ?thesis ..
        qed
      next
        case nunr: False
        show ?thesis
        proof (cases "check (after (heap s1 r)) (all_completed s1) (all_failed s1)")
          case False
          from next1 obtain n where
            "ug_loop n u js1 (if u then tr @ [r] else tr) s1 \<noteq> None" by blast
          with pop nrem nunr False have "ug_loop (Suc n) u js tr s \<noteq> None"
            by (simp add: ug_loop_Suc ug_loop_body_def Let_def)
          then show ?thesis ..
        next
          case chk: True
          from mr_any [of s1 r] fin1 a1 nrem
          obtain n1 mres s2 where m1: "maybe_run n1 r s1 = Some (mres, s2)" by auto
          have e: "evolves s1 s2" "qlen s2 \<le> qlen s1"
            using m1 maybe_run_evolves maybe_run_qlen by blast+
          note fin2 = finite_alive [OF fin1 e(1)] and c2 = card_alive_le [OF fin1 e(1)]
          show ?thesis
          proof (cases mres)
            case (Inl e)
            with pop nrem nunr chk m1 have "ug_loop (Suc n1) u js tr s \<noteq> None"
              by (simp add: ug_loop_Suc ug_loop_body_def Let_def)
            then show ?thesis ..
          next
            case (Inr b)
            show ?thesis
            proof (cases b)
              case False
              with Inr m1 have "maybe_run n1 r s1 = Some (Inr False, s2)" by simp
              then have "removed (heap s2 r) \<or> queue s2 = queue s1"
                by (rule maybe_run_False_queue)
              then have "card (alive s2) < card (alive s1) \<or> queue s2 = queue s1"
                using card_alive_less [OF fin1 e(1) nrem] by blast
              then have "\<exists>n. ug_loop n u js1 (if u then tr @ [r] else tr) s2 \<noteq> None"
                using e fin2 c2 a1 pf(4) by (intro below) auto
              then obtain n2 y where
                l2: "ug_loop n2 u js1 (if u then tr @ [r] else tr) s2 = Some y" by blast
              define n where "n = max n1 n2"
              have "maybe_run n r s1 = Some (Inr False, s2)"
                "ug_loop n u js1 (if u then tr @ [r] else tr) s2 = Some y"
                using Inr False maybe_run_fuel [OF m1, of n] ug_loop_fuel [OF l2, of n]
                by (simp_all add: n_def)
              with pop nrem nunr chk have "ug_loop (Suc n) u js tr s \<noteq> None"
                by (simp add: ug_loop_Suc ug_loop_body_def Let_def)
              then show ?thesis ..
            next
              case True
              with Inr m1 have "maybe_run n1 r s1 = Some (Inr True, s2)" by simp
              then have q2: "queue s2 = queue s1" by (rule maybe_run_True_queue)
              obtain ares s3 where ar: "after_run r s2 = (ares, s3)" by (cases "after_run r s2")
              have e3: "evolves s2 s3" "qlen s3 \<le> qlen s2" "queue s3 = queue s2"
                using ar evolves_after_run qlen_after_run queue_after_run by blast+
              show ?thesis
              proof (cases "ares = Inr () \<and> (\<exists>av. available_engines s3 = Inr av \<and> av \<noteq> [])")
                case False
                with pop nrem nunr chk m1 Inr True ar have "ug_loop (Suc n1) u js tr s \<noteq> None"
                  by (auto simp add: ug_loop_Suc ug_loop_body_def Let_def split: sum.splits)
                then show ?thesis ..
              next
                case go: True
                have "\<exists>n. ug_loop n u js1 tr s3 \<noteq> None"
                  using e e3 q2 a1 pf(4) finite_alive [OF fin2 e3(1)]
                    card_alive_le [OF fin2 e3(1)] c2
                  by (intro below) auto
                then obtain n2 y where l2: "ug_loop n2 u js1 tr s3 = Some y" by blast
                define n where "n = max n1 n2"
                have "maybe_run n r s1 = Some (Inr True, s2)" "ug_loop n u js1 tr s3 = Some y"
                  using Inr True maybe_run_fuel [OF m1, of n] ug_loop_fuel [OF l2, of n]
                  by (simp_all add: n_def)
                with pop nrem nunr chk ar go have "ug_loop (Suc n) u js tr s \<noteq> None"
                  by (auto simp add: ug_loop_Suc ug_loop_body_def Let_def)
                then show ?thesis ..
              qed
            qed
          qed
        qed
      qed
    qed
  qed
qed


lemma ug_loop_defined: "finite (alive s) \<Longrightarrow> \<exists>n. ug_loop n u js tr s \<noteq> None"
  using ug_loop_defined_aux by blast


lemma update_graph_defined: "finite (alive s) \<Longrightarrow> \<exists>n. update_graph n d b s \<noteq> None"
proof (rule ug_defined)
  fix ids s1 u js
  assume "finite (alive s)" "graph_pop d s = (ids, s1)"
  then have "finite (alive s1)" using graph_pop_facts(1) alive_heap_eq by metis
  then show "\<exists>n. ug_loop n u js [] s1 \<noteq> None" by (rule ug_loop_defined)
qed

lemma fail_unreachable_defined:
  "finite (alive s) \<Longrightarrow> \<exists>n. fail_unreachable n m why s \<noteq> None"
proof (rule fu_defined)
  fix r s1
  assume "finite (alive s)" "fail_job r m why s = (Inr (), s1)"
  then have "finite (alive s1)" using finite_alive evolves_fail_job by blast
  then show "\<exists>n. update_graph n (Some m) False s1 \<noteq> None" by (rule update_graph_defined)
qed

lemma maybe_run_defined: "finite (alive s) \<Longrightarrow> \<exists>n. maybe_run n r s \<noteq> None"
proof (rule mr_defined)
  fix st
  assume "finite (alive s)" "evolves s st"
  then have "finite (alive st)" by (rule finite_alive)
  then show "\<exists>n. fail_unreachable n (msg_id (heap s r)) ImpossibleDependency st \<noteq> None"
    by (rule fail_unreachable_defined)
qed

section \<open>The canonical form of after\<close>

lemma distinct_dep_ids_Dependency [simp]: "distinct (dep_ids (Dependency xs a b c))"
  by (simp add: Dependency_def)

lemma distinct_dep_ids_md [simp]: "distinct (dep_ids (Dependency_md md))"
  by (cases md) simp_all

lemma submission_after_eq:
  assumes "md_truthy md" "dep_all (Dependency_md (the md))"
  shows "submission_after md s =
     (let d = Dependency_md (the md);
          d' = d\<lparr>dep_ids := filter (\<lambda>x. \<not> (success d \<and> x \<in> all_completed s)
                                       \<and> \<not> (failure d \<and> x \<in> all_failed s)) (dep_ids d)\<rparr>
      in if check d' (all_completed s) (all_failed s) then MET else d')"
proof -
  obtain xs al suc fai where d: "Dependency_md (the md) = Dependency xs al suc fai"
    using assms(1) by (cases md; cases "the md") auto
  have al: al using assms(2) d by (simp add: Dependency_def)
  have *: "remdups (filter P (remdups xs)) = filter P (remdups xs)" for P
    by (simp add: distinct_remdups_id)
  show ?thesis
    using assms(1) al unfolding submission_after_def d Let_def
    by (cases suc; cases fai) (simp_all add: Dependency_def difference_def * cong: if_cong)
qed

lemma save_unmet_heap:
  "\<exists>tid. heap (save_unmet r s) = (heap s)(r := (heap s r)\<lparr>timeout_id := tid\<rparr>)"
  unfolding save_unmet_def Let_def
  by (auto simp: upd_job_def queue_map_set_def log_msg_def split: option.splits
      intro: exI [of _ "timeout_id (heap s r)"])

lemma save_unmet_after [simp]: "after (heap (save_unmet r s) r') = after (heap s r')"
  using save_unmet_heap [of r s] by auto

lemma evolves_after: "evolves s s' \<Longrightarrow> after (heap s' r) = after (heap s r)"
  by (simp add: evolves_def same_job_def)


lemma submission_after_cong:
  "all_completed s' = all_completed s \<Longrightarrow> all_failed s' = all_failed s \<Longrightarrow>
   submission_after md s' = submission_after md s"
  by (simp add: submission_after_def Let_def)

lemma new_job_after:
  "after (heap (new_job sub s) (next_ref s)) = submission_after (sub_after sub) s"
  unfolding new_job_def Let_def
  by (simp add: emit_def submission_after_def Let_def)

lemma new_job_sets [simp]:
  "all_completed (new_job sub s) = all_completed s"
  "all_failed (new_job sub s) = all_failed s"
  unfolding new_job_def Let_def by (simp_all add: emit_def)

lemma alive_new_job: "alive (new_job sub s) \<subseteq> insert (next_ref s) (alive s)"
  unfolding new_job_def Let_def by (auto simp: emit_def alive_def)

lemma finite_alive_new_job: "finite (alive s) \<Longrightarrow> finite (alive (new_job sub s))"
  using alive_new_job [of sub s] by (meson finite_insert finite_subset)

lemma finite_alive_queue_map_set [simp]: "alive (queue_map_set m r s) = alive s"
  by (simp add: alive_def queue_map_set_def)

lemma dispatch_submission_body_defined:
  assumes "finite (alive s)"
  shows "\<exists>n. dispatch_submission_body n sub s \<noteq> None"
proof -
  let ?s4 = "new_job sub s"
  let ?m = "sub_msg_id sub"
  let ?r = "next_ref s"
  let ?v = "case validate_dep ?m (after (heap ?s4 ?r)) ?s4 of Some why \<Rightarrow> Some why
            | None \<Rightarrow> validate_dep ?m (follow (heap ?s4 ?r)) ?s4"
  have fin: "finite (alive ?s4)" using assms by (rule finite_alive_new_job)
  show ?thesis
  proof (cases ?v)
    case (Some why)
    from fin have "finite (alive (queue_map_set ?m ?r ?s4))" by simp
    then obtain n where "fail_unreachable n ?m why (queue_map_set ?m ?r ?s4) \<noteq> None"
      using fail_unreachable_defined by blast
    with Some have "dispatch_submission_body n sub s \<noteq> None"
      by (simp add: dispatch_submission_body_def Let_def)
    then show ?thesis ..
  next
    case None
    from fin obtain n x where "maybe_run n ?r ?s4 = Some x"
      using maybe_run_defined by blast
    with None have "dispatch_submission_body n sub s \<noteq> None"
      by (simp add: dispatch_submission_body_def Let_def split: prod.splits sum.splits bool.splits)
    then show ?thesis ..
  qed
qed

lemma dispatch_submission_body_shape:
  assumes "dispatch_submission_body n sub s = Some (res, s')"
  shows "\<exists>t. evolves (new_job sub s) t \<and> (s' = t \<or> s' = save_unmet (next_ref s) t)"
proof -
  let ?s4 = "new_job sub s"
  let ?m = "sub_msg_id sub"
  let ?r = "next_ref s"
  let ?v = "case validate_dep ?m (after (heap ?s4 ?r)) ?s4 of Some why \<Rightarrow> Some why
            | None \<Rightarrow> validate_dep ?m (follow (heap ?s4 ?r)) ?s4"
  show ?thesis
  proof (cases ?v)
    case (Some why)
    with assms have "fail_unreachable n ?m why (queue_map_set ?m ?r ?s4) = Some (res, s')"
      by (simp add: dispatch_submission_body_def Let_def)
    then have "evolves (queue_map_set ?m ?r ?s4) s'" by (rule fail_unreachable_evolves)
    then have "evolves ?s4 s'" using evolves_queue_map_set evolves_trans by blast
    then show ?thesis by blast
  next
    case None
    show ?thesis
    proof (cases "check (after (heap ?s4 ?r)) (all_completed ?s4) (all_failed ?s4)")
      case False
      with None assms have "s' = save_unmet ?r ?s4"
        by (simp add: dispatch_submission_body_def Let_def)
      then show ?thesis using evolves_refl by blast
    next
      case True
      with None assms obtain mres s5 where mr: "maybe_run n ?r ?s4 = Some (mres, s5)"
        and s': "s' = s5 \<or> s' = save_unmet ?r s5"
        by (auto simp add: dispatch_submission_body_def Let_def
            split: option.splits prod.splits sum.splits bool.splits if_splits)
      from mr have "evolves ?s4 s5" by (rule maybe_run_evolves)
      with s' show ?thesis by blast
    qed
  qed
qed

text \<open>
  Claim C6. A submission whose \<open>after\<close> metadata is non-empty and has \<open>all\<close> set gets
  a job whose \<open>after\<close> is the same dependency without the ids that are already
  satisfied (those in \<open>all_completed\<close> if \<open>success\<close>, those in \<open>all_failed\<close> if
  \<open>failure\<close>), flags unchanged, or \<open>MET\<close> if that dependency is already met. The
  handler returns (with enough fuel) and the job it leaves in the store has that
  \<open>after\<close>.
\<close>

theorem submission_after_canonical:
  assumes "md_truthy (sub_after sub)" and "dep_all (Dependency_md (the (sub_after sub)))"
    and "finite (alive s)"
  shows "(\<exists>n. dispatch_submission_body n sub s \<noteq> None) \<and>
         (\<forall>n res s'. dispatch_submission_body n sub s = Some (res, s') \<longrightarrow>
            after (heap s' (next_ref s)) =
              (let d = Dependency_md (the (sub_after sub));
                   d' = d\<lparr>dep_ids := filter (\<lambda>x. \<not> (success d \<and> x \<in> all_completed s)
                                       \<and> \<not> (failure d \<and> x \<in> all_failed s)) (dep_ids d)\<rparr>
               in if check d' (all_completed s) (all_failed s) then MET else d'))"
proof (intro conjI allI impI)
  show "\<exists>n. dispatch_submission_body n sub s \<noteq> None"
    using assms(3) by (rule dispatch_submission_body_defined)
next
  fix n res s'
  assume "dispatch_submission_body n sub s = Some (res, s')"
  then obtain t where "evolves (new_job sub s) t" "s' = t \<or> s' = save_unmet (next_ref s) t"
    using dispatch_submission_body_shape by blast
  then have "after (heap s' (next_ref s)) = after (heap (new_job sub s) (next_ref s))"
    using evolves_after by auto
  then show "after (heap s' (next_ref s)) =
              (let d = Dependency_md (the (sub_after sub));
                   d' = d\<lparr>dep_ids := filter (\<lambda>x. \<not> (success d \<and> x \<in> all_completed s)
                                       \<and> \<not> (failure d \<and> x \<in> all_failed s)) (dep_ids d)\<rparr>
               in if check d' (all_completed s) (all_failed s) then MET else d')"
    using submission_after_eq [OF assms(1,2)] new_job_after by simp
qed

theorem submission_after_canonical_witness:
  "md_truthy (sub_after (task ''B'' (Some (Md_ids [''R'', ''X'']))))
   \<and> dep_all (Dependency_md (the (sub_after (task ''B'' (Some (Md_ids [''R'', ''X'']))))))
   \<and> finite (alive r_completed)
   \<and> (\<exists>res s'. dispatch_submission_body 3 (task ''B'' (Some (Md_ids [''R'', ''X'']))) r_completed
          = Some (res, s') \<and>
        after (heap s' 0) = \<lparr>dep_ids = [''X''], dep_all = True, success = True, failure = False\<rparr>)"
proof -
  let ?sub = "task ''B'' (Some (Md_ids [''R'', ''X'']))"
  have h1: "md_truthy (sub_after ?sub)"
    by (simp add: task_def)
  have h2: "dep_all (Dependency_md (the (sub_after ?sub)))"
    by (simp add: task_def Dependency_def)
  have h3: "finite (alive r_completed)"
    by (simp add: alive_def r_completed_def init_def)
  have "dispatch_submission_body 3 ?sub r_completed \<noteq> None"
    by code_simp
  then obtain res s' where x: "dispatch_submission_body 3 ?sub r_completed = Some (res, s')"
    by (cases "dispatch_submission_body 3 ?sub r_completed") auto
  with submission_after_canonical [OF h1 h2 h3]
  have "after (heap s' (next_ref r_completed)) =
      (let d = Dependency_md (the (sub_after ?sub));
           d' = d\<lparr>dep_ids := filter (\<lambda>x. \<not> (success d \<and> x \<in> all_completed r_completed)
                     \<and> \<not> (failure d \<and> x \<in> all_failed r_completed)) (dep_ids d)\<rparr>
       in if check d' (all_completed r_completed) (all_failed r_completed) then MET else d')"
    by blast
  then have "after (heap s' 0) =
      \<lparr>dep_ids = [''X''], dep_all = True, success = True, failure = False\<rparr>"
    by (simp add: task_def Dependency_def r_completed_def init_def check_def pool_def MET_def)
  with h1 h2 h3 x show ?thesis by blast
qed

section \<open>The msg_ids in queue_map\<close>

text \<open>None of the four methods adds a msg_id to \<open>queue_map\<close>, and \<open>fail_unreachable\<close>
  removes the one it is called with.\<close>

lemma waiting_ids_None: "map_of (queue_map s) m = None \<longleftrightarrow> m \<notin> waiting_ids s"
  by (simp add: waiting_ids_def map_of_eq_None_iff)

lemma keys_delete: "fst ` set (AList.delete k al) = fst ` set al - {k}"
  by (induction al) auto

lemma keys_update: "fst ` set (AList.update k v al) = insert k (fst ` set al)"
  by (induction al) auto

lemma waiting_log [simp]: "waiting_ids (log_msg e s) = waiting_ids s"
  by (simp add: waiting_ids_def log_msg_def)

lemma queue_map_fail_job:
  "fail_job r m why s = (res, s') \<Longrightarrow> queue_map s' = AList.delete m (queue_map s)"
  unfolding fail_job_def Let_def
  by (auto simp: emit_def log_msg_def upd_job_def split: prod.splits sum.splits)

lemma waiting_fail_job:
  "fail_job r m why s = (res, s') \<Longrightarrow> waiting_ids s' = waiting_ids s - {m}"
  by (simp add: waiting_ids_def keys_delete queue_map_fail_job)

lemma waiting_graph_pop: "graph_pop d s = (ids, s') \<Longrightarrow> waiting_ids s' = waiting_ids s"
  using graph_pop_facts(2) [of d s ids s'] by (simp add: waiting_ids_def)

lemma waiting_pop_job: "pop_job u js s = Some (r, js1, s1) \<Longrightarrow> waiting_ids s1 = waiting_ids s"
  using pop_job_facts(2) [of u js s r js1 s1] by (simp add: waiting_ids_def)

lemma queue_map_after_run:
  "after_run r s = (res, s') \<Longrightarrow>
   queue_map s' = queue_map s \<or> queue_map s' = AList.delete (msg_id (heap s r)) (queue_map s)"
  unfolding after_run_def Let_def
  by (auto split: prod.splits option.splits)

lemma waiting_after_run: "after_run r s = (res, s') \<Longrightarrow> waiting_ids s' \<subseteq> waiting_ids s"
proof -
  assume "after_run r s = (res, s')"
  then have "waiting_ids s' = waiting_ids s
      \<or> waiting_ids s' = waiting_ids s - {msg_id (heap s r)}"
    using queue_map_after_run [of r s res s'] by (fastforce simp add: waiting_ids_def keys_delete)
  then show ?thesis by blast
qed

lemma waiting_queue_map_set [simp]:
  "waiting_ids (queue_map_set m r s) = insert m (waiting_ids s)"
  by (simp add: waiting_ids_def queue_map_set_def keys_update)

lemma waiting_prune_targets [simp]: "waiting_ids (prune_targets r s) = waiting_ids s"
  by (simp add: waiting_ids_def prune_targets_def upd_job_def)

lemma queue_map_add_job: "add_job idx s = (res, s') \<Longrightarrow> queue_map s' = queue_map s"
  unfolding add_job_def Let_def by (auto split: option.splits)

lemma queue_map_submit_task: "submit_task r indices s = (res, s') \<Longrightarrow> queue_map s' = queue_map s"
  unfolding submit_task_def Let_def
  by (auto simp: emit_def split: option.splits sum.splits prod.splits if_splits
      dest!: queue_map_add_job)

lemma waiting_submit_task: "submit_task r indices s = (res, s') \<Longrightarrow> waiting_ids s' = waiting_ids s"
  by (simp add: waiting_ids_def queue_map_submit_task)

lemma methods_waiting:
  "(\<forall>m w s res s'. fail_unreachable n m w s = Some (res, s') \<longrightarrow>
      waiting_ids s' \<subseteq> waiting_ids s - {m})
   \<and> (\<forall>d b s res s'. update_graph n d b s = Some (res, s') \<longrightarrow> waiting_ids s' \<subseteq> waiting_ids s)
   \<and> (\<forall>u js tr s res s'. ug_loop n u js tr s = Some (res, s') \<longrightarrow> waiting_ids s' \<subseteq> waiting_ids s)
   \<and> (\<forall>r s res s'. maybe_run n r s = Some (res, s') \<longrightarrow> waiting_ids s' \<subseteq> waiting_ids s)"
proof (rule methods_induct)
  fix ug :: update_graph_t
  assume ug: "\<forall>d b s res s'. ug d b s = Some (res, s') \<longrightarrow> waiting_ids s' \<subseteq> waiting_ids s"
  show "\<forall>m w s res s'. fail_unreachable_body ug m w s = Some (res, s') \<longrightarrow>
      waiting_ids s' \<subseteq> waiting_ids s - {m}"
  proof (intro allI impI)
    fix m w s res s'
    assume "fail_unreachable_body ug m w s = Some (res, s')"
    then show "waiting_ids s' \<subseteq> waiting_ids s - {m}"
    proof (cases rule: fail_unreachable_body_cases)
      case not_waiting
      then show ?thesis by (simp add: waiting_ids_None)
    next
      case (raised r e)
      from waiting_fail_job [OF raised(2)] show ?thesis by simp
    next
      case (failed r s1)
      from waiting_fail_job [OF failed(2)] ug [rule_format, OF failed(3)]
      show ?thesis by simp
    qed
  qed
next
  fix lp :: ug_loop_t
  assume lp: "\<forall>u js tr s res s'. lp u js tr s = Some (res, s') \<longrightarrow> waiting_ids s' \<subseteq> waiting_ids s"
  show "\<forall>d b s res s'. update_graph_body lp d b s = Some (res, s') \<longrightarrow>
      waiting_ids s' \<subseteq> waiting_ids s"
  proof (intro allI impI)
    fix d b s res s'
    assume "update_graph_body lp d b s = Some (res, s')"
    then show "waiting_ids s' \<subseteq> waiting_ids s"
    proof (cases rule: update_graph_body_cases)
      case (full_raised ids s1 e)
      from waiting_graph_pop [OF full_raised(1)] lp [rule_format, OF full_raised(3)]
      show ?thesis by simp
    next
      case (full ids s1 tr s2)
      from waiting_graph_pop [OF full(1)] lp [rule_format, OF full(3)] full(5)
      show ?thesis by (simp add: waiting_ids_def)
    next
      case (lookup_raised ids e)
      from waiting_graph_pop [OF lookup_raised(1)] show ?thesis by simp
    next
      case (part_raised ids s1 refs e)
      from waiting_graph_pop [OF part_raised(1)] lp [rule_format, OF part_raised(4)]
      show ?thesis by simp
    next
      case (part ids s1 refs tr)
      from waiting_graph_pop [OF part(1)] lp [rule_format, OF part(4)]
      show ?thesis by simp
    qed
  qed
next
  fix fu :: fail_unreachable_t and mr :: maybe_run_t and lp :: ug_loop_t
  assume fu0: "\<forall>m w s res s'. fu m w s = Some (res, s') \<longrightarrow>
      waiting_ids s' \<subseteq> waiting_ids s - {m}"
    and mr: "\<forall>r s res s'. mr r s = Some (res, s') \<longrightarrow> waiting_ids s' \<subseteq> waiting_ids s"
    and lp: "\<forall>u js tr s res s'. lp u js tr s = Some (res, s') \<longrightarrow> waiting_ids s' \<subseteq> waiting_ids s"
  have fu: "waiting_ids s' \<subseteq> waiting_ids s" if "fu m w s = Some (res, s')" for m w s res s'
    using fu0 [rule_format, OF that] by auto
  show "\<forall>u js tr s res s'. ug_loop_body fu mr lp u js tr s = Some (res, s') \<longrightarrow>
      waiting_ids s' \<subseteq> waiting_ids s"
  proof (intro allI impI)
    fix u js tr s res s'
    assume "ug_loop_body fu mr lp u js tr s = Some (res, s')"
    then show "waiting_ids s' \<subseteq> waiting_ids s"
    proof (cases rule: ug_loop_body_cases)
      case finished
      then show ?thesis by simp
    next
      case (skip r js1 s1)
      from waiting_pop_job [OF skip(1)] lp [rule_format, OF skip(3)]
      show ?thesis by simp
    next
      case (fail_raised r js1 s1 e)
      from waiting_pop_job [OF fail_raised(1)] fu [OF fail_raised(4)]
      show ?thesis by simp
    next
      case (fail_next r js1 s1 s2)
      from waiting_pop_job [OF fail_next(1)] fu [OF fail_next(4)]
        lp [rule_format, OF fail_next(5)]
      show ?thesis by auto
    next
      case (run_raised r js1 s1 e)
      from waiting_pop_job [OF run_raised(1)] mr [rule_format, OF run_raised(5)]
      show ?thesis by simp
    next
      case (ran_raised r js1 s1 s2 e)
      from waiting_pop_job [OF ran_raised(1)] mr [rule_format, OF ran_raised(5)]
        waiting_after_run [OF ran_raised(6)]
      show ?thesis by auto
    next
      case (ran_avail_raised r js1 s1 s2 e)
      from waiting_pop_job [OF ran_avail_raised(1)] mr [rule_format, OF ran_avail_raised(5)]
        waiting_after_run [OF ran_avail_raised(6)]
      show ?thesis by auto
    next
      case (ran_break r js1 s1 s2)
      from waiting_pop_job [OF ran_break(1)] mr [rule_format, OF ran_break(5)]
        waiting_after_run [OF ran_break(6)]
      show ?thesis by auto
    next
      case (ran_next r js1 s1 s2 s3 av)
      from waiting_pop_job [OF ran_next(1)] mr [rule_format, OF ran_next(5)]
        waiting_after_run [OF ran_next(6)] lp [rule_format, OF ran_next(9)]
      show ?thesis by auto
    next
      case (wait_next r js1 s1 s2)
      from waiting_pop_job [OF wait_next(1)] mr [rule_format, OF wait_next(5)]
        lp [rule_format, OF wait_next(6)]
      show ?thesis by auto
    next
      case (unmet_next r js1 s1)
      from waiting_pop_job [OF unmet_next(1)] lp [rule_format, OF unmet_next(5)]
      show ?thesis by simp
    qed
  qed
next
  fix fu :: fail_unreachable_t
  assume fu: "\<forall>m w s res s'. fu m w s = Some (res, s') \<longrightarrow>
      waiting_ids s' \<subseteq> waiting_ids s - {m}"
  show "\<forall>r s res s'. maybe_run_body fu r s = Some (res, s') \<longrightarrow> waiting_ids s' \<subseteq> waiting_ids s"
  proof (intro allI impI)
    fix r s res s'
    assume "maybe_run_body fu r s = Some (res, s')"
    then show "waiting_ids s' \<subseteq> waiting_ids s"
    proof (cases rule: maybe_run_body_cases)
      case (follow_fail s0 av dests fres)
      from fu [rule_format, OF follow_fail(9)] follow_fail(1) show ?thesis by auto
    next
      case (targets_fail s0 av s1 fres)
      from fu [rule_format, OF targets_fail(10)] targets_fail(1,8) show ?thesis by auto
    next
      case (placed s0 av indices sres)
      from waiting_submit_task [OF placed(7)] placed(1) show ?thesis by simp
    next
      case (placed_free s0 av sres)
      from waiting_submit_task [OF placed_free(8)] placed_free(1) show ?thesis by simp
    qed simp_all
  qed
qed simp_all

lemma alive_save_unmet [simp]: "alive (save_unmet r s) = alive s"
proof -
  obtain tid where "heap (save_unmet r s) = (heap s)(r := (heap s r)\<lparr>timeout_id := tid\<rparr>)"
    using save_unmet_heap by blast
  then show ?thesis by (auto simp: alive_def)
qed


section \<open>Failing a job that is not waiting\<close>

lemma fail_unreachable_only_logs:
  assumes "map_of (queue_map s) m = None"
  shows "fail_unreachable n m why s =
           Some (Inr (), s\<lparr>logs := logs s @ [Log_error ''task already failed!'']\<rparr>)"
  using assms
  by (cases n) (simp_all add: fail_unreachable_0 fail_unreachable_Suc
      fail_unreachable_body_def log_msg_def)

lemma fail_unreachable_leaves_queue_map:
  assumes "fail_unreachable n m why s = Some (res, s')"
  shows "map_of (queue_map s') m = None"
proof -
  from methods_waiting [of n, THEN conjunct1, rule_format, OF assms]
  have "waiting_ids s' \<subseteq> waiting_ids s - {m}" .
  then show ?thesis by (auto simp: waiting_ids_None)
qed

text \<open>
  Claim C9, amended. \<open>fail_unreachable\<close> with a msg_id that is not in \<open>queue_map\<close> only
  logs an error: it returns at once, with any amount of fuel, and the state it leaves
  differs from the state it found in the log alone, so no reply is sent and the queue, the
  graph and the sets of finished ids are unchanged. A call of \<open>fail_unreachable\<close> on a
  store with finitely many live jobs returns, and whenever it returns the msg_id is not in
  \<open>queue_map\<close>, so that a second call right after it only logs. The guard reaches no
  further: \<open>maybe_run\<close>, \<open>handle_unmet_dependency\<close> and \<open>dispatch_submission\<close> put the
  msg_id into \<open>queue_map\<close> just before they call \<open>fail_unreachable\<close>.
\<close>

theorem fail_unreachable_guard:
  "(map_of (queue_map s) m = None \<longrightarrow>
      fail_unreachable n m why s =
        Some (Inr (), s\<lparr>logs := logs s @ [Log_error ''task already failed!'']\<rparr>))
   \<and> (finite (alive s) \<longrightarrow> (\<exists>k. fail_unreachable k m why s \<noteq> None))
   \<and> (\<forall>res s'. fail_unreachable n m why s = Some (res, s') \<longrightarrow>
         map_of (queue_map s') m = None)"
  using fail_unreachable_only_logs [of s m n why] fail_unreachable_defined [of s m why]
    fail_unreachable_leaves_queue_map [of n m why s]
  by blast

theorem fail_unreachable_guard_witness:
  "finite (alive j_waiting) \<and> map_of (queue_map j_waiting) ''J'' = Some 0
   \<and> (\<exists>k. fail_unreachable k ''J'' TaskTimeout j_waiting \<noteq> None)
   \<and> (\<exists>res s'. fail_unreachable 3 ''J'' TaskTimeout j_waiting = Some (res, s')
         \<and> map_of (queue_map s') ''J'' = None
         \<and> fail_unreachable 3 ''J'' TaskTimeout s' =
             Some (Inr (), s'\<lparr>logs := logs s' @ [Log_error ''task already failed!'']\<rparr>))"
proof -
  have "finite (alive r_completed)"
    by (simp add: r_completed_def init_def alive_def)
  then have fin: "finite (alive j_waiting)"
    by (simp add: j_waiting_def finite_alive_new_job)
  have q: "map_of (queue_map j_waiting) ''J'' = Some 0"
    by code_simp
  have "fail_unreachable 3 ''J'' TaskTimeout j_waiting \<noteq> None"
    by code_simp
  then obtain res s' where r: "fail_unreachable 3 ''J'' TaskTimeout j_waiting = Some (res, s')"
    by auto
  from fail_unreachable_guard [of j_waiting "''J''" 3 TaskTimeout] fin r
  have ex: "\<exists>k. fail_unreachable k ''J'' TaskTimeout j_waiting \<noteq> None"
    and gone: "map_of (queue_map s') ''J'' = None"
    by blast+
  from fail_unreachable_guard [of s' "''J''" 3 TaskTimeout] gone
  have "fail_unreachable 3 ''J'' TaskTimeout s' =
          Some (Inr (), s'\<lparr>logs := logs s' @ [Log_error ''task already failed!'']\<rparr>)"
    by blast
  with fin q ex r gone show ?thesis by blast
qed

text \<open>
  Claim C9 as stated ends with: so a job can never be failed, or have its failure reply
  duplicated, twice. In the run below the scheduler has no high-water mark. When R
  succeeds, J is sent to E and leaves \<open>queue_map\<close>, but it stays in \<open>queue\<close> and is not
  marked as removed. The rescan at the registration of F finds it there; \<open>maybe_run\<close>
  sees that no engine of its targets is left, puts J back into \<open>queue_map\<close> and fails it:
  the first reply, while J is still pending on E. When the timer for the tasks stranded on
  E fires, the error reply made up for J uses its retry; \<open>handle_unmet_dependency\<close> finds
  the blacklist equal to the targets, puts J into \<open>queue_map\<close> again and fails it: the
  second reply.
\<close>

theorem job_failed_twice:
  "map_option error_replies (run 10 failed_twice no_hwm) = Some [(ImpossibleDependency, ''J'')]
   \<and> Option.bind (run 10 failed_twice no_hwm) (pending_ids ''E'') = Some [''J'']
   \<and> map_option error_replies (run 10 (failed_twice @ [(10, Stranded_fired ''E'')]) no_hwm)
     = Some [(ImpossibleDependency, ''J''), (ImpossibleDependency, ''J'')]"
  by code_simp


section \<open>Dispatches and the blacklist\<close>

lemma dispatched_same: "outbox s' = outbox s \<Longrightarrow> dispatched s s' = []"
  by (simp add: dispatched_def)

lemma dispatched_app: "outbox s' = outbox s @ ev \<Longrightarrow> dispatched s s' = concat (map sent ev)"
  by (simp add: dispatched_def)

lemma dispatched_trans:
  assumes "evolves s t" "evolves t u"
  shows "dispatched s u = dispatched s t @ dispatched t u"
proof -
  from assms obtain a b where "outbox t = outbox s @ a" "outbox u = outbox t @ b"
    by (auto simp: evolves_def)
  then show ?thesis by (simp add: dispatched_def)
qed

lemma evolves_blacklist: "evolves s s' \<Longrightarrow> blacklist (heap s' r) = blacklist (heap s r)"
  by (simp add: evolves_def same_job_def)

lemma careful_refl: "careful s s"
  by (simp add: careful_def respects_blacklist_def dispatched_def)

lemma careful_trans:
  assumes "careful s t" "careful t u"
  shows "careful s u"
proof -
  from assms have e: "evolves s t" "evolves t u" by (simp_all add: careful_def)
  then have eu: "evolves s u" by (rule evolves_trans)
  have "respects_blacklist s u"
    using assms dispatched_trans [OF e] evolves_blacklist [OF e(1)] evolves_blacklist [OF e(2)]
    by (auto simp: careful_def respects_blacklist_def list_all_iff)
  with eu show ?thesis by (simp add: careful_def)
qed

lemma careful_quiet: "evolves s s' \<Longrightarrow> outbox s' = outbox s \<Longrightarrow> careful s s'"
  by (simp add: careful_def respects_blacklist_def dispatched_same)

lemma outbox_fail_job:
  "fail_job r m why s = (res, s') \<Longrightarrow> dispatched s s' = []"
  unfolding fail_job_def Let_def
  by (auto simp: dispatched_def emit_def log_msg_def upd_job_def split: prod.splits sum.splits)

lemma careful_fail_job: "fail_job r m why s = (res, s') \<Longrightarrow> careful s s'"
  by (simp add: careful_def respects_blacklist_def outbox_fail_job evolves_fail_job)

lemma outbox_graph_pop: "graph_pop d s = (ids, s') \<Longrightarrow> outbox s' = outbox s"
  unfolding graph_pop_def by (auto split: option.splits)

lemma outbox_pop_job: "pop_job u js s = Some (r, js1, s1) \<Longrightarrow> outbox s1 = outbox s"
  unfolding pop_job_def by (auto split: if_splits list.splits)

lemma outbox_after_run: "after_run r s = (res, s') \<Longrightarrow> outbox s' = outbox s"
  unfolding after_run_def Let_def by (auto split: prod.splits option.splits)

lemma outbox_add_job: "add_job idx s = (res, s') \<Longrightarrow> outbox s' = outbox s"
  unfolding add_job_def Let_def by (auto split: option.splits)

lemma py_norm_nat: "py_norm n (int j) = (if j < n then Some j else None)"
  by (auto simp: py_norm_def)

lemma py_norm_less: "py_norm n i = Some k \<Longrightarrow> k < n"
  by (auto simp: py_norm_def split: if_splits)

lemma submit_task_picks:
  assumes "submit_task r (Some is) s = (res, s')" "is \<noteq> []"
  shows "dispatched s s' = []
     \<or> (\<exists>c k. py_norm (length is) c = Some k \<and> is ! k < length (targets_s s)
           \<and> dispatched s s' = [(targets_s s ! (is ! k), r)])"
  using assms unfolding submit_task_def Let_def
  apply (auto simp: dispatched_def emit_def py_norm_nat
      split: option.splits sum.splits prod.splits if_splits
      dest!: outbox_add_job)
     apply blast+
  done

lemma submit_task_free:
  assumes "submit_task r None s = (res, s')"
  shows "dispatched s s' = [] \<or> (\<exists>e. dispatched s s' = [(e, r)])"
  using assms unfolding submit_task_def Let_def
  by (auto simp: dispatched_def emit_def
      split: option.splits sum.splits prod.splits if_splits
      dest!: outbox_add_job)

lemma dispatched_submit_task:
  assumes "submit_task r (Some is) s = (res, s')" "is \<noteq> []"
  shows "dispatched s s' = []
     \<or> (\<exists>i \<in> set is. i < length (targets_s s) \<and> dispatched s s' = [(targets_s s ! i, r)])"
proof -
  from submit_task_picks [OF assms] show ?thesis
  proof
    assume "dispatched s s' = []"
    then show ?thesis by simp
  next
    assume "\<exists>c k. py_norm (length is) c = Some k \<and> is ! k < length (targets_s s)
           \<and> dispatched s s' = [(targets_s s ! (is ! k), r)]"
    then obtain c k where k: "py_norm (length is) c = Some k" "is ! k < length (targets_s s)"
      "dispatched s s' = [(targets_s s ! (is ! k), r)]" by blast
    from k(1) have "k < length is" by (rule py_norm_less)
    then have "is ! k \<in> set is" by simp
    with k(2,3) show ?thesis by blast
  qed
qed

lemma can_run_TrueD:
  assumes "can_run s j i = Inr True"
  shows "i < length (targets_s s)" "targets_s s ! i \<notin> blacklist j"
    "targets j = {} \<or> targets_s s ! i \<in> targets j"
    "hwm s \<noteq> 0 \<Longrightarrow> i < length (loads s) \<and> loads s ! i \<noteq> hwm s"
  using assms unfolding can_run_def Let_def
  by (auto split: if_splits option.splits)

lemma filter_can_run_mem:
  "filter_can_run s j av = Inr is \<Longrightarrow> i \<in> set is \<Longrightarrow> i \<in> set av \<and> can_run s j i = Inr True"
proof (induction av arbitrary: "is")
  case Nil
  then show ?case by simp
next
  case (Cons a av)
  then show ?case
    by (auto split: sum.splits if_splits)
qed

lemma careful_submit_filtered:
  assumes "filter_can_run s (heap s r) av = Inr is" "is \<noteq> []"
    and "submit_task r (Some is) s = (res, s')"
  shows "careful s s'"
proof -
  from assms(3) have e: "evolves s s'" by (rule evolves_submit_task)
  from dispatched_submit_task [OF assms(3,2)] have "respects_blacklist s s'"
  proof
    assume "dispatched s s' = []"
    then show ?thesis by (simp add: respects_blacklist_def)
  next
    assume "\<exists>i \<in> set is. i < length (targets_s s) \<and> dispatched s s' = [(targets_s s ! i, r)]"
    then obtain i where i: "i \<in> set is" "dispatched s s' = [(targets_s s ! i, r)]" by blast
    from filter_can_run_mem [OF assms(1) i(1)] have "can_run s (heap s r) i = Inr True" by simp
    then have "targets_s s ! i \<notin> blacklist (heap s r)" by (rule can_run_TrueD(2))
    with i(2) evolves_blacklist [OF e, of r] show ?thesis
      by (simp add: respects_blacklist_def)
  qed
  with e show ?thesis by (simp add: careful_def)
qed

lemma careful_submit_free:
  assumes "blacklist (heap s r) = {}" "submit_task r None s = (res, s')"
  shows "careful s s'"
proof -
  from assms(2) have e: "evolves s s'" by (rule evolves_submit_task)
  from submit_task_free [OF assms(2)] assms(1) evolves_blacklist [OF e, of r]
  have "respects_blacklist s s'"
    by (auto simp: respects_blacklist_def)
  with e show ?thesis by (simp add: careful_def)
qed

lemma methods_careful:
  "(\<forall>m w s res s'. fail_unreachable n m w s = Some (res, s') \<longrightarrow> careful s s')
   \<and> (\<forall>d b s res s'. update_graph n d b s = Some (res, s') \<longrightarrow> careful s s')
   \<and> (\<forall>u js tr s res s'. ug_loop n u js tr s = Some (res, s') \<longrightarrow> careful s s')
   \<and> (\<forall>r s res s'. maybe_run n r s = Some (res, s') \<longrightarrow> careful s s')"
proof (rule methods_rel [where R = careful and RM = "\<lambda>r. careful"])
  show "careful s s" for s by (rule careful_refl)
  show "careful s t \<Longrightarrow> careful t u \<Longrightarrow> careful s u" for s t u by (rule careful_trans)
  show "careful s t \<Longrightarrow> careful s t" for s t .
  show "careful s t \<Longrightarrow> heap t r = heap s r \<Longrightarrow> careful t u \<Longrightarrow> careful s u" for r s t u
    by (rule careful_trans)
  show "careful s t \<Longrightarrow> \<not> removed (heap s r) \<Longrightarrow> careful s t" for r s t .
  show "careful s (log_msg e s)" for e s
    by (rule careful_quiet [OF evolves_log]) (simp add: log_msg_def)
  show "fail_job r m why s = (res, s') \<Longrightarrow> careful s s'" for r m why s res s'
    by (rule careful_fail_job)
  show "graph_pop d s = (ids, s') \<Longrightarrow> careful s s'" for d s ids s'
    by (rule careful_quiet) (simp_all add: evolves_graph_pop outbox_graph_pop)
  show "careful s (s\<lparr>queue := rev tr @ queue s\<rparr>)" for tr s
    by (rule careful_quiet [OF evolves_restore]) simp
  show "pop_job u js s = Some (r, js1, s1) \<Longrightarrow> careful s s1" for u js s r js1 s1
    by (rule careful_quiet) (simp_all add: evolves_pop_job outbox_pop_job)
  show "after_run r s = (res, s') \<Longrightarrow> careful s s'" for r s res s'
    by (rule careful_quiet) (simp_all add: evolves_after_run outbox_after_run)
  show "careful s (queue_map_set (msg_id (heap s r)) r s)" for r s
    by (rule careful_quiet [OF evolves_queue_map_set]) (simp add: queue_map_set_def)
  show "careful s (prune_targets r s)" for r s
    by (rule careful_quiet [OF evolves_prune_targets]) (simp add: prune_targets_def upd_job_def)
  show "filter_can_run s (heap s r) av = Inr indices \<Longrightarrow> indices \<noteq> [] \<Longrightarrow>
        submit_task r (Some indices) s = (res, s') \<Longrightarrow> careful s s'" for r s av indices res s'
    by (rule careful_submit_filtered)
  show "blacklist (heap s r) = {} \<Longrightarrow> submit_task r None s = (res, s') \<Longrightarrow> careful s s'"
    for r s res s'
    by (rule careful_submit_free)
qed


lemma alive_upd_job: "(\<And>j. removed (f j) = removed j) \<Longrightarrow> alive (upd_job r f s) = alive s"
  by (auto simp: alive_def upd_job_def)

lemma maybe_run_careful: "maybe_run n r s = Some (res, s') \<Longrightarrow> careful s s'"
  using methods_careful [of n, THEN conjunct2, THEN conjunct2, THEN conjunct2] by blast

text \<open>
  Claim C8. No dispatch made by \<open>maybe_run\<close>, through \<open>submit_task\<close>, sends a job to an
  engine of that job's blacklist. A call of \<open>maybe_run\<close> on a store with finitely many
  live jobs returns; and whenever a call returns, each dispatch it made, for its own job
  or, through \<open>fail_unreachable\<close> and \<open>update_graph\<close>, for another job, went to an engine
  outside the blacklist of the job dispatched. The methods never change a blacklist, so
  it is the same at the start of the call, at the dispatch and at the end.
\<close>

theorem dispatch_avoids_blacklist:
  "(finite (alive s) \<longrightarrow> (\<exists>k. maybe_run k r s \<noteq> None))
   \<and> (\<forall>res s'. maybe_run n r s = Some (res, s') \<longrightarrow> respects_blacklist s s')"
  using maybe_run_defined [of s r] maybe_run_careful [of n r s]
  by (simp add: careful_def)

theorem dispatch_avoids_blacklist_witness:
  "finite (alive e_refused) \<and> blacklist (heap e_refused 0) = {''E''}
   \<and> (\<exists>k. maybe_run k 0 e_refused \<noteq> None)
   \<and> (\<exists>res s'. maybe_run 3 0 e_refused = Some (res, s')
         \<and> dispatched e_refused s' = [(''F'', 0)] \<and> respects_blacklist e_refused s')"
proof -
  have "finite (alive no_hwm)"
    by (simp add: no_hwm_def init_def alive_def)
  then have "finite (alive (no_hwm\<lparr>targets_s := [''E'', ''F''], loads := [0, 0],
             pending := [''E'' \<mapsto> [], ''F'' \<mapsto> []],
             completed := [''E'' \<mapsto> {}, ''F'' \<mapsto> {}],
             failed := [''E'' \<mapsto> {}, ''F'' \<mapsto> {}]\<rparr>))"
    by (simp add: alive_def)
  then have "finite (alive (new_job (task ''J'' None)
          (no_hwm\<lparr>targets_s := [''E'', ''F''], loads := [0, 0],
             pending := [''E'' \<mapsto> [], ''F'' \<mapsto> []],
             completed := [''E'' \<mapsto> {}, ''F'' \<mapsto> {}],
             failed := [''E'' \<mapsto> {}, ''F'' \<mapsto> {}]\<rparr>)))"
    by (rule finite_alive_new_job)
  then have fin: "finite (alive e_refused)"
    by (simp add: e_refused_def alive_upd_job)
  have b: "blacklist (heap e_refused 0) = {''E''}"
    by code_simp
  have "map_option (\<lambda>(res, s'). dispatched e_refused s') (maybe_run 3 0 e_refused)
          = Some [(''F'', 0)]"
    by code_simp
  then obtain res s' where r: "maybe_run 3 0 e_refused = Some (res, s')"
    and d: "dispatched e_refused s' = [(''F'', 0)]"
    by auto
  from dispatch_avoids_blacklist [of e_refused 0 3] fin r
  have "\<exists>k. maybe_run k 0 e_refused \<noteq> None" "respects_blacklist e_refused s'"
    by blast+
  with fin b r d show ?thesis by blast
qed


section \<open>Timeouts\<close>












section \<open>The order of the waiting queue after a full rescan\<close>

text \<open>
  Claim C1. After a full rescan the jobs that were popped but neither ran nor failed are
  to be back at the front of the queue in their original order, so that the queue stays
  sorted by submission time. The code does not do that: \<open>to_restore\<close> is collected in
  queue order and \<open>extendleft\<close> reverses it. Before F registers the queue holds A
  (submitted at 3) and then B (submitted at 4); after the rescan it holds B and then A.
\<close>

theorem full_rescan_reverses_queue:
  "map_option (\<lambda>s. map (\<lambda>r. (msg_id (heap s r), timestamp (heap s r))) (queue s))
     (run 10 two_waiting (init 1 (\<lambda>c. leastload))) = Some [(''A'', 3), (''B'', 4)]
   \<and> map_option (\<lambda>s. map (\<lambda>r. (msg_id (heap s r), timestamp (heap s r))) (queue s))
       (run 10 (two_waiting @ [(5, Registration ''F'')]) (init 1 (\<lambda>c. leastload)))
     = Some [(''B'', 4), (''A'', 3)]"
  by code_simp

end
